theory Spec2Isabelle
  imports Main
begin

section \<open>The regex-to-minimal-DFA compiler (regex2mindfa\_compiler.c)\<close>

text \<open>
  C strings are modelled as \<^typ>\<open>string\<close> (a list of bytes): the bytes before the
  terminating NUL. A \<open>char\<close> of C is a \<^typ>\<open>char\<close> of HOL (one byte);
  \<open>(unsigned char)c\<close> is \<open>of_char c\<close>. Every \<open>die(msg)\<close> of the source is a value
  \<open>Inl e\<close> of the result type \<open>error + 'a\<close>; the constructor of \<open>e\<close> names the
  message.
\<close>

subsection \<open>Constants, errors, character classes\<close>

definition EPS_TOK :: char where
  "EPS_TOK = CHR 0x01"

definition MAX_NFA_STATES :: nat where
  "MAX_NFA_STATES = 4096"

definition MAX_DFA_STATES :: nat where
  "MAX_DFA_STATES = 4096"

definition MAX_ALPHABET :: nat where
  "MAX_ALPHABET = 128"

datatype alphabet_reason =
    ContainsEpsToken      \<comment> \<open>alphabet must not contain internal epsilon token\<close>
  | ContainsMeta          \<comment> \<open>alphabet contains meta-operator\<close>
  | NonPrintableByte      \<comment> \<open>alphabet contains non-printable byte\<close>
  | DuplicateSymbol       \<comment> \<open>alphabet contains duplicate symbol\<close>
  | TooLarge              \<comment> \<open>alphabet too large\<close>
  | IsEmpty               \<comment> \<open>alphabet is empty\<close>

datatype paren_reason =
    ExtraClose            \<comment> \<open>mismatched parentheses: extra ')'\<close>
  | Unclosed              \<comment> \<open>mismatched parentheses: unclosed '('\<close>
  | PostfixMismatch       \<comment> \<open>mismatched parentheses (raised by to\_postfix)\<close>

datatype postfix_reason =
    UnknownCharacter      \<comment> \<open>unknown character during postfix conversion\<close>
  | StackUnderflow        \<comment> \<open>invalid postfix (stack underflow)\<close>
  | InvalidToken          \<comment> \<open>invalid postfix token\<close>
  | NotSingleton          \<comment> \<open>invalid postfix (stack not singleton)\<close>

datatype error =
    BadAlphabet alphabet_reason
  | EmptyRegex            \<comment> \<open>empty regex\<close>
  | ExplicitDot           \<comment> \<open>regex must not contain explicit '.'\<close>
  | NonAsciiPatternByte   \<comment> \<open>regex contains non-ASCII byte\<close>
  | BadPatternChar char   \<comment> \<open>regex contains invalid character: c\<close>
  | UnbalancedParens paren_reason
  | MalformedPostfix postfix_reason
  | NfaTooLarge           \<comment> \<open>too many NFA states\<close>
  | DfaTooLarge           \<comment> \<open>too many DFA states\<close>

text \<open>\<open>isspace\<close> of \<open>ctype.h\<close> in the C locale: space, \<open>\t \n \v \f \r\<close>.\<close>

definition isspace :: "char \<Rightarrow> bool" where
  "isspace c = (c = CHR 0x20 \<or> c = CHR 0x09 \<or> c = CHR 0x0A \<or> c = CHR 0x0B
                \<or> c = CHR 0x0C \<or> c = CHR 0x0D)"

definition is_meta :: "char \<Rightarrow> bool" where
  "is_meta c = (c = CHR ''|'' \<or> c = CHR ''+'' \<or> c = CHR ''*'' \<or> c = CHR ''(''
                \<or> c = CHR '')'' \<or> c = CHR ''.'')"

subsection \<open>Alphabet\<close>

text \<open>
  The globals \<open>ALPHABET\<close>, \<open>ALPHABET_SIZE\<close> are one \<^typ>\<open>string\<close>, passed explicitly.
\<close>

fun is_alphabet_symbol :: "string \<Rightarrow> char \<Rightarrow> bool" where
  "is_alphabet_symbol [] c = False"
| "is_alphabet_symbol (x # xs) c = (if x = c then True else is_alphabet_symbol xs c)"

text \<open>
  The loop of \<open>parse_alphabet_line\<close>. The accumulator is \<open>ALPHABET[0..ALPHABET_SIZE)\<close>;
  \<open>seen[uc]\<close> is set exactly when \<open>c\<close> is stored, so it is membership in the accumulator.
\<close>

fun parse_alphabet_loop :: "string \<Rightarrow> string \<Rightarrow> error + string" where
  "parse_alphabet_loop [] acc = Inr acc"
| "parse_alphabet_loop (c # rest) acc =
     (if c = CHR 0x0A \<or> c = CHR 0x0D then parse_alphabet_loop rest acc
      else if isspace c \<or> c = CHR '','' \<or> c = CHR '';'' then parse_alphabet_loop rest acc
      else if c = EPS_TOK then Inl (BadAlphabet ContainsEpsToken)
      else if is_meta c then Inl (BadAlphabet ContainsMeta)
      else if (of_char c :: nat) < 32 then Inl (BadAlphabet NonPrintableByte)
      else if c \<in> set acc then Inl (BadAlphabet DuplicateSymbol)
      else if length acc \<ge> MAX_ALPHABET then Inl (BadAlphabet TooLarge)
      else parse_alphabet_loop rest (acc @ [c]))"

definition parse_alphabet_line :: "string \<Rightarrow> error + string" where
  "parse_alphabet_line line =
     (case parse_alphabet_loop line [] of
        Inl e \<Rightarrow> Inl e
      | Inr alphabet \<Rightarrow> if alphabet = [] then Inl (BadAlphabet IsEmpty) else Inr alphabet)"

subsection \<open>Pattern preprocessing and validation\<close>

text \<open>
  \<open>preprocess_regex\<close>: the scan position \<open>i\<close> is the suffix still to read. The test
  \<open>i+4 < n && strncmp(&line[i], "<eps>", 5) == 0\<close> holds iff the next five bytes are
  \<open><eps>\<close>; \<open>i+1 < n\<close> and the two byte tests hold iff the next two bytes are CE B5.
\<close>

fun preprocess_regex :: "string \<Rightarrow> string" where
  "preprocess_regex [] = []"
| "preprocess_regex (b # rest) =
     (if b = CHR 0x0D \<or> b = CHR 0x0A then preprocess_regex rest
      else if isspace b then preprocess_regex rest
      else if b = CHR ''<'' \<and> take 4 rest = ''eps>'' then EPS_TOK # preprocess_regex (drop 4 rest)
      else if b = CHR 0xCE \<and> take 1 rest = [CHR 0xB5] then EPS_TOK # preprocess_regex (drop 1 rest)
      else b # preprocess_regex rest)"

fun check_parentheses_loop :: "string \<Rightarrow> int \<Rightarrow> error + unit" where
  "check_parentheses_loop [] bal = (if bal \<noteq> 0 then Inl (UnbalancedParens Unclosed) else Inr ())"
| "check_parentheses_loop (c # rest) bal =
     (let bal' = (if c = CHR ''('' then bal + 1 else if c = CHR '')'' then bal - 1 else bal)
      in if bal' < 0 then Inl (UnbalancedParens ExtraClose)
         else check_parentheses_loop rest bal')"

definition check_parentheses_balanced :: "string \<Rightarrow> error + unit" where
  "check_parentheses_balanced s = check_parentheses_loop s 0"

fun check_regex_symbols_valid :: "string \<Rightarrow> string \<Rightarrow> error + unit" where
  "check_regex_symbols_valid alphabet [] = Inr ()"
| "check_regex_symbols_valid alphabet (c # rest) =
     (if c = EPS_TOK then check_regex_symbols_valid alphabet rest
      else if is_alphabet_symbol alphabet c then check_regex_symbols_valid alphabet rest
      else if c = CHR ''|'' \<or> c = CHR ''+'' \<or> c = CHR ''*'' \<or> c = CHR ''('' \<or> c = CHR '')''
        then check_regex_symbols_valid alphabet rest
      else if c = CHR ''.'' then Inl ExplicitDot
      else if (of_char c :: nat) \<ge> 128 then Inl NonAsciiPatternByte
      else Inl (BadPatternChar c))"

subsection \<open>Concatenation insertion and shunting-yard\<close>

definition is_atom_end :: "string \<Rightarrow> char \<Rightarrow> bool" where
  "is_atom_end alphabet c =
     (is_alphabet_symbol alphabet c \<or> c = EPS_TOK \<or> c = CHR '')'' \<or> c = CHR ''*'')"

definition is_atom_start :: "string \<Rightarrow> char \<Rightarrow> bool" where
  "is_atom_start alphabet c = (is_alphabet_symbol alphabet c \<or> c = EPS_TOK \<or> c = CHR ''('')"

definition need_concat :: "string \<Rightarrow> char \<Rightarrow> char \<Rightarrow> bool" where
  "need_concat alphabet a b = (is_atom_end alphabet a \<and> is_atom_start alphabet b)"

text \<open>The \<open>for\<close> loop of \<open>add_concat_ops\<close> over the index \<open>i\<close>; \<open>out\<close> is \<open>out[0..j)\<close>.\<close>

function add_concat_loop :: "string \<Rightarrow> string \<Rightarrow> nat \<Rightarrow> string \<Rightarrow> string" where
  "add_concat_loop alphabet inp i out =
     (if i < length inp then
        (let a = inp ! i; out1 = out @ [a] in
         add_concat_loop alphabet inp (i + 1)
           (if i + 1 < length inp \<and> need_concat alphabet a (inp ! (i + 1))
            then out1 @ [CHR ''.''] else out1))
      else out)"
  by pat_completeness auto
termination
  by (relation "measure (\<lambda>(alphabet, inp, i, out). length inp - i)") auto

definition add_concat_ops :: "string \<Rightarrow> string \<Rightarrow> string" where
  "add_concat_ops alphabet inp = add_concat_loop alphabet inp 0 []"

definition prec :: "char \<Rightarrow> nat" where
  "prec op = (if op = CHR ''*'' then 3 else if op = CHR ''.'' then 2
              else if op = CHR ''|'' \<or> op = CHR ''+'' then 1 else 0)"

definition is_left_assoc :: "char \<Rightarrow> bool" where
  "is_left_assoc op = (op \<noteq> CHR ''*'')"

text \<open>
  The operator stack \<open>st[0..top]\<close> of \<open>to_postfix\<close> is a list with the top at the head.
  \<open>pop_ops\<close> is the inner \<open>while(top>=0)\<close> of the operator case, \<open>pop_to_paren\<close> the
  one of the \<open>)\<close> case, \<open>flush_ops\<close> the final loop.
\<close>

fun pop_ops :: "char \<Rightarrow> string \<Rightarrow> string \<Rightarrow> string \<times> string" where
  "pop_ops c [] out = ([], out)"
| "pop_ops c (o2 # st) out =
     (if o2 = CHR ''('' then (o2 # st, out)
      else if (is_left_assoc c \<and> prec c \<le> prec o2) \<or> (\<not> is_left_assoc c \<and> prec c < prec o2)
        then pop_ops c st (out @ [o2])
      else (o2 # st, out))"

fun pop_to_paren :: "string \<Rightarrow> string \<Rightarrow> string \<times> string" where
  "pop_to_paren [] out = ([], out)"
| "pop_to_paren (o2 # st) out =
     (if o2 \<noteq> CHR ''('' then pop_to_paren st (out @ [o2]) else (o2 # st, out))"

fun flush_ops :: "string \<Rightarrow> string \<Rightarrow> error + string" where
  "flush_ops [] out = Inr out"
| "flush_ops (o2 # st) out =
     (if o2 = CHR ''('' then Inl (UnbalancedParens PostfixMismatch)
      else flush_ops st (out @ [o2]))"

fun to_postfix_loop :: "string \<Rightarrow> string \<Rightarrow> string \<Rightarrow> string \<Rightarrow> error + string" where
  "to_postfix_loop alphabet [] st out = flush_ops st out"
| "to_postfix_loop alphabet (c # rest) st out =
     (if is_alphabet_symbol alphabet c \<or> c = EPS_TOK then
        to_postfix_loop alphabet rest st (out @ [c])
      else if c = CHR ''('' then to_postfix_loop alphabet rest (c # st) out
      else if c = CHR '')'' then
        (case pop_to_paren st out of
           ([], out') \<Rightarrow> Inl (UnbalancedParens PostfixMismatch)
         | (p # st', out') \<Rightarrow> to_postfix_loop alphabet rest st' out')
      else if c = CHR ''*'' then to_postfix_loop alphabet rest st (out @ [c])
      else if c = CHR ''|'' \<or> c = CHR ''+'' \<or> c = CHR ''.'' then
        (case pop_ops c st out of (st', out') \<Rightarrow> to_postfix_loop alphabet rest (c # st') out')
      else Inl (MalformedPostfix UnknownCharacter))"

definition to_postfix :: "string \<Rightarrow> string \<Rightarrow> error + string" where
  "to_postfix alphabet regex = to_postfix_loop alphabet regex [] []"

subsection \<open>Thompson construction\<close>

text \<open>
  \<open>Edge\<close>: target state and label; the label \<open>CHR 0x00\<close> is an \<open>\<epsilon>\<close>-edge. The global
  array \<open>nfa[0..nfa_states)\<close> is the list of the states' edge lists, \<open>nfa_states\<close> its length.
\<close>

datatype edge = Edge (to: nat) (sym: char)

type_synonym nfa = "edge list list"

datatype frag = Frag (start: nat) (accept: nat)

definition new_nfa_state :: "nfa \<Rightarrow> error + (nfa \<times> nat)" where
  "new_nfa_state nfa =
     (if length nfa \<ge> MAX_NFA_STATES then Inl NfaTooLarge else Inr (nfa @ [[]], length nfa))"

definition add_edge :: "nfa \<Rightarrow> nat \<Rightarrow> nat \<Rightarrow> char \<Rightarrow> nfa" where
  "add_edge nfa from t c = nfa[from := nfa ! from @ [Edge t c]]"

text \<open>Two calls \<open>s = new_nfa_state(), t = new_nfa_state()\<close>.\<close>

definition new_two :: "nfa \<Rightarrow> error + (nfa \<times> nat \<times> nat)" where
  "new_two nfa =
     (case new_nfa_state nfa of
        Inl e \<Rightarrow> Inl e
      | Inr (nfa1, s) \<Rightarrow>
          (case new_nfa_state nfa1 of
             Inl e \<Rightarrow> Inl e
           | Inr (nfa2, t) \<Rightarrow> Inr (nfa2, s, t)))"

text \<open>
  The fragment stack has its top at the head. \<open>fs_pop\<close> on an empty stack dies with
  stack underflow.
\<close>

fun postfix_loop :: "string \<Rightarrow> string \<Rightarrow> nfa \<Rightarrow> frag list \<Rightarrow> error + (nfa \<times> frag list)" where
  "postfix_loop alphabet [] nfa st = Inr (nfa, st)"
| "postfix_loop alphabet (c # rest) nfa st =
     (if is_alphabet_symbol alphabet c then
        (case new_two nfa of
           Inl e \<Rightarrow> Inl e
         | Inr (nfa', s, t) \<Rightarrow>
             postfix_loop alphabet rest (add_edge nfa' s t c) (Frag s t # st))
      else if c = EPS_TOK then
        (case new_two nfa of
           Inl e \<Rightarrow> Inl e
         | Inr (nfa', s, t) \<Rightarrow>
             postfix_loop alphabet rest (add_edge nfa' s t (CHR 0x00)) (Frag s t # st))
      else if c = CHR ''.'' then
        (case st of
           f2 # f1 # st' \<Rightarrow>
             postfix_loop alphabet rest (add_edge nfa (accept f1) (start f2) (CHR 0x00))
               (Frag (start f1) (accept f2) # st')
         | _ \<Rightarrow> Inl (MalformedPostfix StackUnderflow))
      else if c = CHR ''|'' \<or> c = CHR ''+'' then
        (case st of
           f2 # f1 # st' \<Rightarrow>
             (case new_two nfa of
                Inl e \<Rightarrow> Inl e
              | Inr (nfa', s, t) \<Rightarrow>
                  postfix_loop alphabet rest
                    (add_edge (add_edge (add_edge (add_edge nfa' s (start f1) (CHR 0x00))
                       s (start f2) (CHR 0x00)) (accept f1) t (CHR 0x00)) (accept f2) t (CHR 0x00))
                    (Frag s t # st'))
         | _ \<Rightarrow> Inl (MalformedPostfix StackUnderflow))
      else if c = CHR ''*'' then
        (case st of
           f # st' \<Rightarrow>
             (case new_two nfa of
                Inl e \<Rightarrow> Inl e
              | Inr (nfa', s, t) \<Rightarrow>
                  postfix_loop alphabet rest
                    (add_edge (add_edge (add_edge (add_edge nfa' s (start f) (CHR 0x00))
                       s t (CHR 0x00)) (accept f) (start f) (CHR 0x00)) (accept f) t (CHR 0x00))
                    (Frag s t # st'))
         | _ \<Rightarrow> Inl (MalformedPostfix StackUnderflow))
      else Inl (MalformedPostfix InvalidToken))"

text \<open>\<open>main\<close> resets \<open>nfa_states = 0\<close> before the construction.\<close>

definition postfix_to_nfa :: "string \<Rightarrow> string \<Rightarrow> error + (nfa \<times> frag)" where
  "postfix_to_nfa alphabet post =
     (case postfix_loop alphabet post [] [] of
        Inl e \<Rightarrow> Inl e
      | Inr (nfa, st) \<Rightarrow>
          (case st of
             [res] \<Rightarrow> Inr (nfa, res)
           | _ \<Rightarrow> Inl (MalformedPostfix NotSingleton)))"

subsection \<open>Bitsets, \<open>\<epsilon>\<close>-closure, move\<close>

text \<open>
  A \<open>Bitset\<close> is the set of the positions of its 1-bits: \<open>bs_set\<close> is \<open>insert\<close>, \<open>bs_get\<close>
  is membership, \<open>bs_eq\<close> is equality, \<open>bs_empty\<close> is \<open>= {}\<close>. The static array \<open>nfa\<close>
  is zero-initialised, so a state at or beyond \<open>nfa_states\<close> has no edges.
\<close>

definition nfa_edges :: "nfa \<Rightarrow> nat \<Rightarrow> edge list" where
  "nfa_edges nfa u = (if u < length nfa then nfa ! u else [])"

text \<open>The inner \<open>for\<close> of \<open>eps_closure\<close> over the edges of \<open>u\<close>; \<open>q\<close> is \<open>q[qh..qt)\<close>.\<close>

fun eps_edges :: "edge list \<Rightarrow> nat set \<times> nat list \<Rightarrow> nat set \<times> nat list" where
  "eps_edges [] (out, q) = (out, q)"
| "eps_edges (e # es) (out, q) =
     (if sym e = CHR 0x00 \<and> to e \<notin> out then eps_edges es (insert (to e) out, q @ [to e])
      else eps_edges es (out, q))"

definition eps_targets :: "nfa \<Rightarrow> nat set" where
  "eps_targets nfa = (\<Union>es \<in> set nfa. to ` set es)"

definition eps_measure :: "nfa \<Rightarrow> nat set \<Rightarrow> nat list \<Rightarrow> nat" where
  "eps_measure nfa out q = 2 * card (eps_targets nfa - out) + length q"

lemma eps_edges_measure:
  "eps_edges es (out, q) = (out', q') \<Longrightarrow> to ` set es \<subseteq> T \<Longrightarrow> finite T \<Longrightarrow>
   2 * card (T - out') + length q' \<le> 2 * card (T - out) + length q"
proof (induction es arbitrary: out q)
  case Nil
  then show ?case by simp
next
  case (Cons e es)
  show ?case
  proof (cases "sym e = CHR 0x00 \<and> to e \<notin> out")
    case True
    with Cons.prems have r: "eps_edges es (insert (to e) out, q @ [to e]) = (out', q')" by simp
    from Cons.prems have sub: "to ` set es \<subseteq> T" and tin: "to e \<in> T" by auto
    have "2 * card (T - out') + length q' \<le> 2 * card (T - insert (to e) out) + length (q @ [to e])"
      using Cons.IH[OF r sub Cons.prems(3)] .
    moreover have "to e \<in> T - out" using tin True by simp
    then have "card (T - insert (to e) out) < card (T - out)"
      using Cons.prems(3)
      by (metis Diff_insert card_Diff1_less finite_Diff)
    ultimately show ?thesis by simp
  next
    case False
    with Cons.prems have r: "eps_edges es (out, q) = (out', q')" by auto
    from Cons.prems have sub: "to ` set es \<subseteq> T" by auto
    show ?thesis using Cons.IH[OF r sub Cons.prems(3)] .
  qed
qed

lemma nfa_edges_targets: "to ` set (nfa_edges nfa u) \<subseteq> eps_targets nfa"
  by (auto simp: nfa_edges_def eps_targets_def intro!: bexI[of _ "nfa ! u"])

lemma finite_eps_targets: "finite (eps_targets nfa)"
  by (simp add: eps_targets_def)

function eps_closure_loop :: "nfa \<Rightarrow> nat set \<Rightarrow> nat list \<Rightarrow> nat set" where
  "eps_closure_loop nfa out [] = out"
| "eps_closure_loop nfa out (u # q) =
     (case eps_edges (nfa_edges nfa u) (out, q) of
        (out', q') \<Rightarrow> eps_closure_loop nfa out' q')"
  by pat_completeness auto
termination
proof (relation "measure (\<lambda>(nfa, out, q). eps_measure nfa out q)", goal_cases)
  case 1
  show ?case by simp
next
  case (2 nfa out u q x1 x2)
  then have e: "eps_edges (nfa_edges nfa u) (out, q) = (x1, x2)" by simp
  show ?case
    using eps_edges_measure[OF e nfa_edges_targets finite_eps_targets]
    by (simp add: eps_measure_def)
qed


text \<open>\<open>eps_closure\<close>: the queue is seeded with the members of \<open>in\<close> in increasing order.\<close>

definition eps_closure :: "nfa \<Rightarrow> nat set \<Rightarrow> nat set" where
  "eps_closure nfa inp = eps_closure_loop nfa inp (filter (\<lambda>s. s \<in> inp) [0..<length nfa])"

definition move_on_symbol :: "nfa \<Rightarrow> nat set \<Rightarrow> char \<Rightarrow> nat set" where
  "move_on_symbol nfa inp c =
     fold (\<lambda>s out. if s \<in> inp
                     then fold (\<lambda>e out. if sym e = c then insert (to e) out else out) (nfa ! s) out
                     else out)
          [0..<length nfa] {}"

subsection \<open>Subset construction\<close>

text \<open>
  A transition cell is an \<open>int\<close>: a state index or the sentinel \<open>-1\<close>. The global array
  \<open>dfa[0..dfa_n)\<close> is a list; the work queue \<open>q[qh..qt)\<close> is the list of the ids still to
  process.
\<close>

record dfa_state =
  nset :: "nat set"
  is_accept :: bool
  trans :: "int list"

fun find_from :: "dfa_state list \<Rightarrow> nat set \<Rightarrow> nat \<Rightarrow> int" where
  "find_from [] s i = - 1"
| "find_from (d # ds) s i = (if nset d = s then int i else find_from ds s (i + 1))"

definition find_dfa_state :: "dfa_state list \<Rightarrow> nat set \<Rightarrow> int" where
  "find_dfa_state dfa s = find_from dfa s 0"

definition dfa_add_state ::
  "nat \<Rightarrow> dfa_state list \<Rightarrow> nat set \<Rightarrow> nat \<Rightarrow> error + (dfa_state list \<times> nat)" where
  "dfa_add_state k dfa s nfa_accept =
     (if length dfa \<ge> MAX_DFA_STATES then Inl DfaTooLarge
      else Inr (dfa @ [\<lparr>nset = s, is_accept = (nfa_accept \<in> s), trans = replicate k (- 1)\<rparr>],
                length dfa))"

definition set_trans :: "dfa_state list \<Rightarrow> nat \<Rightarrow> nat \<Rightarrow> int \<Rightarrow> dfa_state list" where
  "set_trans dfa sid ai t = dfa[sid := (dfa ! sid)\<lparr>trans := (trans (dfa ! sid))[ai := t]\<rparr>]"

fun dfa_sym_loop ::
  "nfa \<Rightarrow> nat \<Rightarrow> string \<Rightarrow> nat \<Rightarrow> nat list \<Rightarrow> dfa_state list \<Rightarrow> nat list
   \<Rightarrow> error + (dfa_state list \<times> nat list)" where
  "dfa_sym_loop nfa nfa_accept alphabet sid [] dfa q = Inr (dfa, q)"
| "dfa_sym_loop nfa nfa_accept alphabet sid (ai # ais) dfa q =
     (let mv = move_on_symbol nfa (nset (dfa ! sid)) (alphabet ! ai) in
      if mv = {} then
        dfa_sym_loop nfa nfa_accept alphabet sid ais (set_trans dfa sid ai (- 1)) q
      else
        (let cl = eps_closure nfa mv; ex = find_dfa_state dfa cl in
         if ex < 0 then
           (case dfa_add_state (length alphabet) dfa cl nfa_accept of
              Inl e \<Rightarrow> Inl e
            | Inr (dfa', ex') \<Rightarrow>
                dfa_sym_loop nfa nfa_accept alphabet sid ais
                  (set_trans dfa' sid ai (int ex')) (q @ [ex']))
         else dfa_sym_loop nfa nfa_accept alphabet sid ais (set_trans dfa sid ai ex) q))"

lemma length_set_trans: "length (set_trans dfa sid ai t) = length dfa"
  by (simp add: set_trans_def)

lemma dfa_sym_loop_grows:
  "dfa_sym_loop nfa acc alphabet sid ais dfa q = Inr (dfa', q') \<Longrightarrow>
   \<exists>m. length dfa' = length dfa + m \<and> length q' = length q + m
       \<and> (m = 0 \<or> length dfa' \<le> MAX_DFA_STATES)"
proof (induction ais arbitrary: dfa q)
  case Nil
  then show ?case by simp
next
  case (Cons ai ais)
  let ?mv = "move_on_symbol nfa (nset (dfa ! sid)) (alphabet ! ai)"
  let ?cl = "eps_closure nfa ?mv"
  show ?case
  proof (cases "?mv = {}")
    case True
    with Cons.prems have
      "dfa_sym_loop nfa acc alphabet sid ais (set_trans dfa sid ai (- 1)) q = Inr (dfa', q')"
      by simp
    from Cons.IH[OF this] show ?thesis by (simp add: length_set_trans)
  next
    case False
    show ?thesis
    proof (cases "find_dfa_state dfa ?cl < 0")
      case neg: True
      with False Cons.prems obtain dfa1 ex1 where
        add: "dfa_add_state (length alphabet) dfa ?cl acc = Inr (dfa1, ex1)" and
        rec: "dfa_sym_loop nfa acc alphabet sid ais (set_trans dfa1 sid ai (int ex1)) (q @ [ex1])
              = Inr (dfa', q')"
        by (auto simp: Let_def split: sum.splits)
      from add have l1: "length dfa1 = length dfa + 1" and b: "length dfa1 \<le> MAX_DFA_STATES"
        by (auto simp: dfa_add_state_def split: if_splits)
      from Cons.IH[OF rec] obtain m where
        m: "length dfa' = length dfa1 + m" "length q' = length q + 1 + m"
           "m = 0 \<or> length dfa' \<le> MAX_DFA_STATES"
        by (auto simp: length_set_trans)
      have "length dfa' = length dfa + (m + 1) \<and> length q' = length q + (m + 1)
            \<and> (m + 1 = 0 \<or> length dfa' \<le> MAX_DFA_STATES)"
        using m l1 b by auto
      then show ?thesis by blast
    next
      case nonneg: False
      with False Cons.prems have
        "dfa_sym_loop nfa acc alphabet sid ais (set_trans dfa sid ai (find_dfa_state dfa ?cl)) q
         = Inr (dfa', q')"
        by (simp add: Let_def)
      from Cons.IH[OF this] show ?thesis by (simp add: length_set_trans)
    qed
  qed
qed

function nfa_to_dfa_loop ::
  "nfa \<Rightarrow> nat \<Rightarrow> string \<Rightarrow> dfa_state list \<Rightarrow> nat list \<Rightarrow> error + dfa_state list" where
  "nfa_to_dfa_loop nfa nfa_accept alphabet dfa [] = Inr dfa"
| "nfa_to_dfa_loop nfa nfa_accept alphabet dfa (sid # q) =
     (case dfa_sym_loop nfa nfa_accept alphabet sid [0..<length alphabet] dfa q of
        Inl e \<Rightarrow> Inl e
      | Inr (dfa', q') \<Rightarrow> nfa_to_dfa_loop nfa nfa_accept alphabet dfa' q')"
  by pat_completeness auto
termination
proof (relation "measure (\<lambda>(nfa, nfa_accept, alphabet, dfa, q).
                    2 * (MAX_DFA_STATES - length dfa) + length q)", goal_cases)
  case 1
  show ?case by simp
next
  case (2 nfa nfa_accept alphabet dfa sid q x2 x y)
  then have "dfa_sym_loop nfa nfa_accept alphabet sid [0..<length alphabet] dfa q = Inr (x, y)"
    by simp
  from dfa_sym_loop_grows[OF this] show ?case by auto
qed

definition nfa_to_dfa :: "nfa \<Rightarrow> string \<Rightarrow> nat \<Rightarrow> nat \<Rightarrow> error + dfa_state list" where
  "nfa_to_dfa nfa alphabet nfa_start nfa_accept =
     (case dfa_add_state (length alphabet) [] (eps_closure nfa {nfa_start}) nfa_accept of
        Inl e \<Rightarrow> Inl e
      | Inr (dfa, d0) \<Rightarrow> nfa_to_dfa_loop nfa nfa_accept alphabet dfa [d0])"


subsection \<open>Completion and Hopcroft minimization\<close>

definition need_dead_of :: "nat \<Rightarrow> dfa_state list \<Rightarrow> bool" where
  "need_dead_of k dfa = list_ex (\<lambda>d. list_ex (\<lambda>a. trans d ! a = - 1) [0..<k]) dfa"

text \<open>\<open>N = dfa_n + (need_dead ? 1 : 0)\<close> and \<open>dead = need_dead ? (N-1) : -1\<close>.\<close>

definition num_states :: "nat \<Rightarrow> dfa_state list \<Rightarrow> nat" where
  "num_states k dfa = length dfa + (if need_dead_of k dfa then 1 else 0)"

definition dead_of :: "nat \<Rightarrow> dfa_state list \<Rightarrow> int" where
  "dead_of k dfa = (if need_dead_of k dfa then int (num_states k dfa) - 1 else - 1)"

definition build_T :: "nat \<Rightarrow> dfa_state list \<Rightarrow> int list list" where
  "build_T k dfa =
     map (\<lambda>d. map (\<lambda>a. let t = trans d ! a in if t = - 1 then dead_of k dfa else t) [0..<k]) dfa
     @ (if need_dead_of k dfa then [replicate k (dead_of k dfa)] else [])"

definition build_A :: "nat \<Rightarrow> dfa_state list \<Rightarrow> bool list" where
  "build_A k dfa = map is_accept dfa @ (if need_dead_of k dfa then [False] else [])"

definition assign_cls :: "nat list \<Rightarrow> nat list \<Rightarrow> nat \<Rightarrow> nat list" where
  "assign_cls cls block i = fold (\<lambda>s c. c[s := i]) block cls"

definition build_inv :: "nat \<Rightarrow> nat \<Rightarrow> int list list \<Rightarrow> nat list list list" where
  "build_inv k N T =
     fold (\<lambda>p invb. fold (\<lambda>a invb. let q = nat (T ! p ! a)
                                  in invb[a := (invb ! a)[q := invb ! a ! q @ [p]]]) [0..<k] invb)
          [0..<N] (replicate k (replicate N []))"

definition compute_mark :: "nat list list list \<Rightarrow> nat \<Rightarrow> nat \<Rightarrow> nat list \<Rightarrow> bool list" where
  "compute_mark invb N a block =
     fold (\<lambda>qstate m. fold (\<lambda>p m. m[p := True]) (invb ! a ! qstate) m) block (replicate N False)"

definition push_after_split :: "nat list \<Rightarrow> nat \<Rightarrow> nat \<Rightarrow> nat \<Rightarrow> nat \<Rightarrow> nat list" where
  "push_after_split W yi newi n1 n2 =
     (if yi \<in> set W then W @ [newi]
      else if n1 \<le> n2 then W @ [yi] else W @ [newi])"

type_synonym hop_state = "nat list list \<times> nat list \<times> nat list"

definition split_block :: "bool list \<Rightarrow> nat \<Rightarrow> hop_state \<Rightarrow> hop_state" where
  "split_block mark yi st =
     (case st of (P, cls, W) \<Rightarrow>
        let Y1 = filter (\<lambda>s. mark ! s) (P ! yi);
            Y2 = filter (\<lambda>s. \<not> mark ! s) (P ! yi);
            newi = length P;
            P' = P[yi := Y1] @ [Y2];
            cls' = assign_cls (assign_cls cls (P' ! yi) yi) (P' ! newi) newi
        in (P', cls', push_after_split W yi newi (length (P' ! yi)) (length (P' ! newi))))"

definition block_count :: "bool list \<Rightarrow> nat list \<Rightarrow> nat" where
  "block_count mark Y = length (filter (\<lambda>s. mark ! s) Y)"

definition hop_potential :: "nat list list \<Rightarrow> nat" where
  "hop_potential P = sum_list (map (\<lambda>Y. length Y - 1) P)"

lemma split_arith:
  "y1 + y2 = (y::nat) \<Longrightarrow> y1 \<noteq> 0 \<Longrightarrow> y1 \<noteq> y \<Longrightarrow> y - 1 \<le> S \<Longrightarrow>
   S = S + (y1 - 1) - (y - 1) + (y2 - 1) + 1"
  by arith

lemma split_block_potential:
  assumes "yi < length P" "block_count mark (P ! yi) \<noteq> 0"
    "block_count mark (P ! yi) \<noteq> length (P ! yi)"
    "split_block mark yi (P, cls, W) = (P', cls', W')"
  shows "hop_potential P = hop_potential P' + 1 \<and> length W' = length W + 1
         \<and> length P' = length P + 1"
proof -
  let ?Y = "P ! yi"
  let ?Y1 = "filter (\<lambda>s. mark ! s) ?Y"
  let ?Y2 = "filter (\<lambda>s. \<not> mark ! s) ?Y"
  let ?f = "\<lambda>Y::nat list. length Y - 1"
  have P': "P' = P[yi := ?Y1] @ [?Y2]" and W': "length W' = length W + 1"
    using assms(4) by (auto simp: split_block_def Let_def push_after_split_def)
  have len: "length ?Y1 + length ?Y2 = length ?Y"
    using sum_length_filter_compl[of "\<lambda>s. mark ! s" ?Y] by simp
  have l1: "length ?Y1 \<noteq> 0" "length ?Y1 \<noteq> length ?Y"
    using assms(2,3) by (simp_all add: block_count_def)
  have ge: "?f ?Y \<le> sum_list (map ?f P)"
  proof (rule member_le_sum_list)
    have "?Y \<in> set P" using assms(1) by simp
    then show "?f ?Y \<in> set (map ?f P)" by (simp only: set_map) (rule imageI)
  qed simp
  have upd: "sum_list (map ?f (P[yi := ?Y1])) = sum_list (map ?f P) + ?f ?Y1 - ?f ?Y"
    using assms(1) by (simp only: map_update sum_list_update length_map nth_map)
  have "hop_potential P' = sum_list (map ?f (P[yi := ?Y1])) + ?f ?Y2"
    by (simp add: hop_potential_def P')
  then have "hop_potential P' = sum_list (map ?f P) + ?f ?Y1 - ?f ?Y + ?f ?Y2"
    by (simp only: upd)
  moreover have "sum_list (map ?f P) = sum_list (map ?f P) + ?f ?Y1 - ?f ?Y + ?f ?Y2 + 1"
    by (rule split_arith[OF len l1 ge])
  ultimately have "hop_potential P = hop_potential P' + 1"
    by (simp only: hop_potential_def)
  then show ?thesis using W' P' by simp
qed

function yi_loop :: "bool list \<Rightarrow> nat \<Rightarrow> hop_state \<Rightarrow> hop_state" where
  "yi_loop mark yi (P, cls, W) =
     (if yi < length P then
        (let cnt = block_count mark (P ! yi) in
         if cnt = 0 \<or> cnt = length (P ! yi) then yi_loop mark (yi + 1) (P, cls, W)
         else yi_loop mark (yi + 1) (split_block mark yi (P, cls, W)))
      else (P, cls, W))"
  by pat_completeness auto
termination
proof (relation "measures [\<lambda>(mark, yi, P, cls, W). hop_potential P,
                           \<lambda>(mark, yi, P, cls, W). length P - yi]", goal_cases)
  case 1
  show ?case by simp
next
  case (2 mark yi P cls W cnt)
  then show ?case by auto
next
  case (3 mark yi P cls W cnt)
  obtain P' cls' W' where s: "split_block mark yi (P, cls, W) = (P', cls', W')"
    by (cases "split_block mark yi (P, cls, W)") auto
  from 3 have "block_count mark (P ! yi) \<noteq> 0" "block_count mark (P ! yi) \<noteq> length (P ! yi)"
    "yi < length P" by auto
  from split_block_potential[OF this(3) this(1) this(2) s] show ?case by (simp add: s)
qed


lemma yi_loop_potential:
  "yi_loop mark yi (P, cls, W) = (P', cls', W') \<Longrightarrow>
   hop_potential P' + length W' = hop_potential P + length W"
proof (induction mark yi "(P, cls, W)" arbitrary: P cls W rule: yi_loop.induct)
  case (1 mark yi P cls W)
  show ?case
  proof (cases "yi < length P")
    case False
    with "1.prems" show ?thesis by simp
  next
    case lt: True
    show ?thesis
    proof (cases "block_count mark (P ! yi) = 0 \<or> block_count mark (P ! yi) = length (P ! yi)")
      case True
      with lt "1.prems" have "yi_loop mark (yi + 1) (P, cls, W) = (P', cls', W')" by simp
      from "1.hyps"(1)[OF lt refl True this] show ?thesis .
    next
      case False
      obtain P1 cls1 W1 where s: "split_block mark yi (P, cls, W) = (P1, cls1, W1)"
        by (cases "split_block mark yi (P, cls, W)") auto
      from False lt "1.prems" s have r: "yi_loop mark (yi + 1) (P1, cls1, W1) = (P', cls', W')"
        by simp
      have "hop_potential P' + length W' = hop_potential P1 + length W1"
        using "1.hyps"(2)[OF lt refl False s r] .
      moreover have "hop_potential P = hop_potential P1 + 1 \<and> length W1 = length W + 1
                     \<and> length P1 = length P + 1"
        using split_block_potential[OF lt _ _ s] False by simp
      ultimately show ?thesis by simp
    qed
  qed
qed

text \<open>
  The \<open>for\<close> loop over the symbols: \<open>P[Ablock]\<close> is read again for every symbol, after the
  splits of the symbols before it.
\<close>

fun a_loop :: "nat list list list \<Rightarrow> nat \<Rightarrow> nat \<Rightarrow> nat list \<Rightarrow> hop_state \<Rightarrow> hop_state" where
  "a_loop invb N Ablock [] st = st"
| "a_loop invb N Ablock (a # as) st =
     a_loop invb N Ablock as (yi_loop (compute_mark invb N a (fst st ! Ablock)) 0 st)"

lemma a_loop_potential:
  "a_loop invb N Ablock as (P, cls, W) = (P', cls', W') \<Longrightarrow>
   hop_potential P' + length W' = hop_potential P + length W"
proof (induction as arbitrary: P cls W)
  case Nil
  then show ?case by simp
next
  case (Cons a as)
  obtain P1 cls1 W1 where
    y: "yi_loop (compute_mark invb N a (P ! Ablock)) 0 (P, cls, W) = (P1, cls1, W1)"
    by (cases "yi_loop (compute_mark invb N a (P ! Ablock)) 0 (P, cls, W)") auto
  with Cons.prems have "a_loop invb N Ablock as (P1, cls1, W1) = (P', cls', W')" by simp
  from Cons.IH[OF this] yi_loop_potential[OF y] show ?case by simp
qed

text \<open>The \<open>while(W.n>0)\<close> loop; \<open>W.a[--W.n]\<close> pops the last element.\<close>

function hopcroft_loop :: "nat list list list \<Rightarrow> nat \<Rightarrow> nat \<Rightarrow> hop_state \<Rightarrow> hop_state" where
  "hopcroft_loop invb N k (P, cls, W) =
     (if W \<noteq> [] then
        hopcroft_loop invb N k (a_loop invb N (last W) [0..<k] (P, cls, butlast W))
      else (P, cls, W))"
  by pat_completeness auto
termination
proof (relation "measure (\<lambda>(invb, N, k, P, cls, W). hop_potential P + length W)", goal_cases)
  case 1
  show ?case by simp
next
  case (2 invb N k P cls W)
  obtain P' cls' W' where a: "a_loop invb N (last W) [0..<k] (P, cls, butlast W) = (P', cls', W')"
    by (cases "a_loop invb N (last W) [0..<k] (P, cls, butlast W)") auto
  from a_loop_potential[OF a] 2 show ?case by (simp add: a)
qed

text \<open>
  \<open>dfa_minimize\<close> returns \<open>cls\<close> and, through its out-parameters, \<open>min_n\<close>. The values of
  \<open>need_dead\<close> and \<open>dead\<close> are \<open>need_dead_of\<close> and \<open>dead_of\<close>. \<open>cls\<close> is allocated
  uninitialised and then written at every state of the two initial blocks.
\<close>

definition dfa_minimize :: "nat \<Rightarrow> dfa_state list \<Rightarrow> nat list \<times> nat" where
  "dfa_minimize k dfa =
     (let N = num_states k dfa;
          T = build_T k dfa;
          A = build_A k dfa;
          nF = length (filter (\<lambda>s. A ! s) [0..<N]);
          nNF = length (filter (\<lambda>s. \<not> A ! s) [0..<N])
      in if nF = 0 \<or> nNF = 0 then (replicate N 0, 1)
         else
           (let P = [filter (\<lambda>s. A ! s) [0..<N], filter (\<lambda>s. \<not> A ! s) [0..<N]];
                cls = assign_cls (assign_cls (replicate N 0) (P ! 0) 0) (P ! 1) 1;
                W = (if length (P ! 0) \<le> length (P ! 1) then [0] else [1]);
                invb = build_inv k N T
            in case hopcroft_loop invb N k (P, cls, W) of
                 (P', cls', W') \<Rightarrow> (cls', length P')))"

subsection \<open>Writer and driver\<close>

record dfa_file =
  f_alphabet :: string
  f_states :: nat
  f_start :: nat
  f_accept :: "nat list"
  f_trans :: "nat list list"

definition build_rep :: "nat \<Rightarrow> nat \<Rightarrow> nat list \<Rightarrow> int list" where
  "build_rep N min_n cls =
     fold (\<lambda>s rep. if rep ! (cls ! s) = - 1 then rep[cls ! s := int s] else rep)
          [0..<N] (replicate min_n (- 1))"

definition build_acc :: "nat \<Rightarrow> nat \<Rightarrow> nat list \<Rightarrow> bool list \<Rightarrow> bool list" where
  "build_acc N min_n cls A =
     fold (\<lambda>s acc. if A ! s then acc[cls ! s := True] else acc) [0..<N] (replicate min_n False)"

text \<open>The values that \<open>write_min_dfa\<close> prints, in the order of the file.\<close>

definition write_min_dfa :: "string \<Rightarrow> dfa_state list \<Rightarrow> nat list \<Rightarrow> nat \<Rightarrow> dfa_file" where
  "write_min_dfa alphabet dfa cls min_n =
     (let k = length alphabet;
          N = num_states k dfa;
          T = build_T k dfa;
          A = build_A k dfa;
          rep = build_rep N min_n cls;
          acc = build_acc N min_n cls A
      in \<lparr>f_alphabet = alphabet,
          f_states = min_n,
          f_start = cls ! 0,
          f_accept = filter (\<lambda>i. acc ! i) [0..<min_n],
          f_trans = map (\<lambda>c. map (\<lambda>a. cls ! nat (T ! nat (rep ! c) ! a)) [0..<k]) [0..<min_n]\<rparr>)"

text \<open>\<open>printf("%d", n)\<close> for \<open>n \<ge> 0\<close>.\<close>

fun show_nat :: "nat \<Rightarrow> string" where
  "show_nat n = (if n < 10 then [char_of (48 + n)]
                 else show_nat (n div 10) @ [char_of (48 + n mod 10)])"

definition show_row :: "nat list \<Rightarrow> string" where
  "show_row row =
     concat (map (\<lambda>a. show_nat (row ! a) @ (if a = length row - 1 then [] else '' ''))
                 [0..<length row]) @ [CHR 0x0A]"

definition render_dfa :: "dfa_file \<Rightarrow> string" where
  "render_dfa d =
     ''ALPHABET '' @ show_nat (length (f_alphabet d)) @ '' '' @ f_alphabet d @ [CHR 0x0A]
     @ ''STATES '' @ show_nat (f_states d) @ [CHR 0x0A]
     @ ''START '' @ show_nat (f_start d) @ [CHR 0x0A]
     @ ''ACCEPT '' @ show_nat (length (f_accept d))
     @ concat (map (\<lambda>i. '' '' @ show_nat i) (f_accept d)) @ [CHR 0x0A]
     @ ''TRANS'' @ [CHR 0x0A]
     @ concat (map show_row (f_trans d))
     @ ''END'' @ [CHR 0x0A]"

text \<open>
  \<open>main\<close> after the two lines have been read: \<open>line_regex\<close> and \<open>line_alpha\<close> are the
  buffers filled by \<open>fgets\<close>. \<open>compile_dfa\<close> gives the values written, \<open>compiler_main\<close> the
  text of the output file.
\<close>

definition compile_dfa :: "string \<Rightarrow> string \<Rightarrow> error + dfa_file" where
  "compile_dfa line_regex line_alpha =
     (case parse_alphabet_line line_alpha of
        Inl e \<Rightarrow> Inl e
      | Inr alphabet \<Rightarrow>
          (let regex0 = preprocess_regex line_regex in
           if regex0 = [] then Inl EmptyRegex
           else case check_regex_symbols_valid alphabet regex0 of
             Inl e \<Rightarrow> Inl e
           | Inr u1 \<Rightarrow>
               (case check_parentheses_balanced regex0 of
                  Inl e \<Rightarrow> Inl e
                | Inr u2 \<Rightarrow>
                    (case to_postfix alphabet (add_concat_ops alphabet regex0) of
                       Inl e \<Rightarrow> Inl e
                     | Inr post \<Rightarrow>
                         (case postfix_to_nfa alphabet post of
                            Inl e \<Rightarrow> Inl e
                          | Inr (nfa, fr) \<Rightarrow>
                              (case nfa_to_dfa nfa alphabet (start fr) (accept fr) of
                                 Inl e \<Rightarrow> Inl e
                               | Inr dfa \<Rightarrow>
                                   (case dfa_minimize (length alphabet) dfa of
                                      (cls, min_n) \<Rightarrow>
                                        Inr (write_min_dfa alphabet dfa cls min_n))))))))"

definition compiler_main :: "string \<Rightarrow> string \<Rightarrow> error + string" where
  "compiler_main line_regex line_alpha = map_sum (\<lambda>e. e) render_dfa (compile_dfa line_regex line_alpha)"

section \<open>The comparator (dfa\_checker.c)\<close>

text \<open>
  The \<open>DFA\<close> struct as \<open>dfa_read\<close> fills it. \<open>dfa_read\<close> accepts a file only when the
  conditions of \<open>wf_DFA\<close> hold, so the fields that are \<open>int\<close> in C and checked to be
  non-negative are natural numbers here.
\<close>

record DFA =
  dk :: nat
  dalphabet :: string
  dn :: nat
  dstart :: nat
  dacc :: "bool list"
  dtrans :: "nat list"

definition wf_DFA :: "DFA \<Rightarrow> bool" where
  "wf_DFA d =
     (0 < dk d \<and> dk d \<le> 128 \<and> length (dalphabet d) = dk d \<and> 0 < dn d \<and> dstart d < dn d
      \<and> length (dacc d) = dn d \<and> length (dtrans d) = dn d * dk d
      \<and> list_all (\<lambda>t. t < dn d) (dtrans d) \<and> distinct (dalphabet d))"

fun alph_index_loop :: "string \<Rightarrow> char \<Rightarrow> nat \<Rightarrow> int" where
  "alph_index_loop [] c i = - 1"
| "alph_index_loop (x # xs) c i = (if x = c then int i else alph_index_loop xs c (i + 1))"

definition alph_index :: "DFA \<Rightarrow> char \<Rightarrow> int" where
  "alph_index d c = alph_index_loop (take (dk d) (dalphabet d)) c 0"

fun run_dfa_loop :: "DFA \<Rightarrow> string \<Rightarrow> nat \<Rightarrow> int" where
  "run_dfa_loop d [] st = (if dacc d ! st then 1 else 0)"
| "run_dfa_loop d (c # s) st =
     (let idx = alph_index d c in
      if idx < 0 then - 1
      else run_dfa_loop d s (dtrans d ! (st * dk d + nat idx)))"

definition run_dfa :: "DFA \<Rightarrow> string \<Rightarrow> int" where
  "run_dfa d s = run_dfa_loop d s (dstart d)"

definition same_alphabet :: "DFA \<Rightarrow> DFA \<Rightarrow> bool" where
  "same_alphabet a b = (dk a = dk b \<and> take (dk a) (dalphabet a) = take (dk a) (dalphabet b))"

definition trim_newline :: "string \<Rightarrow> string" where
  "trim_newline s = rev (dropWhile (\<lambda>c. c = CHR 0x0A \<or> c = CHR 0x0D) (rev s))"

definition MAX_LINE :: nat where
  "MAX_LINE = 8192"

text \<open>
  One line of the tests file, as the body of the \<open>while(fgets(...))\<close> loop reads it:
  skipped (blank or comment), rejected, or a test with its label and its string
  (\<open><eps>\<close> already replaced by the empty string).
\<close>

datatype test_line = Skip | BadLabel | MissingString | Test int string

definition parse_test_line :: "string \<Rightarrow> test_line" where
  "parse_test_line line =
     (let p = dropWhile isspace (trim_newline line) in
      if p = [] \<or> hd p = CHR ''#'' then Skip
      else if hd p \<noteq> CHR ''0'' \<and> hd p \<noteq> CHR ''1'' then BadLabel
      else
        (let label = (if hd p = CHR ''1'' then 1 else 0);
             p' = dropWhile isspace (tl p) in
         if p' = [] then MissingString
         else
           (let strbuf = take (MAX_LINE - 1) (takeWhile (\<lambda>c. \<not> isspace c) p') in
            Test label (if strbuf = ''<eps>'' then [] else strbuf))))"

text \<open>
  What \<open>main\<close> writes to \<open>stderr\<close>, one value per \<open>fprintf\<close> group, and its result: the exit
  code, the text on \<open>stdout\<close> and the diagnostics in order.
\<close>

datatype diag =
    AlphabetsDiffer
  | LabelMustBe01 nat            \<comment> \<open>tests line n: label must be 0 or 1\<close>
  | MissingStringToken nat       \<comment> \<open>tests line n: missing string token\<close>
  | SymbolNotInAlphabet nat      \<comment> \<open>tests line n: string contains symbol not in alphabet\<close>
  | FailAt nat string int int int  \<comment> \<open>FAIL at test line n, w, ref\_accept, user\_accept, label\<close>
  | LabelWarning nat int int     \<comment> \<open>WARNING: test label mismatch vs reference at line n\<close>

definition is_warning :: "diag \<Rightarrow> bool" where
  "is_warning g = (case g of LabelWarning l lab r \<Rightarrow> True | _ \<Rightarrow> False)"

definition pass_message :: "nat \<Rightarrow> string" where
  "pass_message tot =
     ''PASS: '' @ show_nat tot
     @ '' tests matched (user DFA behavior == reference DFA behavior).'' @ [CHR 0x0A]"

fun tests_loop :: "DFA \<Rightarrow> DFA \<Rightarrow> string list \<Rightarrow> nat \<Rightarrow> nat \<Rightarrow> diag list
                   \<Rightarrow> int \<times> string \<times> diag list" where
  "tests_loop ref usr [] line_no tot err = (0, pass_message tot, err)"
| "tests_loop ref usr (line # rest) line_no tot err =
     (let line_no = line_no + 1 in
      case parse_test_line line of
        Skip \<Rightarrow> tests_loop ref usr rest line_no tot err
      | BadLabel \<Rightarrow> (1, [], err @ [LabelMustBe01 line_no])
      | MissingString \<Rightarrow> (1, [], err @ [MissingStringToken line_no])
      | Test label w \<Rightarrow>
          (let rref = run_dfa ref w; rusr = run_dfa usr w in
           if rref < 0 \<or> rusr < 0 then (1, [], err @ [SymbolNotInAlphabet line_no])
           else if rref \<noteq> rusr then (2, [], err @ [FailAt line_no w rref rusr label])
           else if rref \<noteq> label
             then tests_loop ref usr rest line_no (tot + 1) (err @ [LabelWarning line_no label rref])
           else tests_loop ref usr rest line_no (tot + 1) err))"

text \<open>
  \<open>main\<close> after both DFA files have been read; \<open>lines\<close> are the buffers that \<open>fgets\<close>
  returns for the tests file, in order.
\<close>

definition checker_main :: "DFA \<Rightarrow> DFA \<Rightarrow> string list \<Rightarrow> int \<times> string \<times> diag list" where
  "checker_main ref usr lines =
     (if \<not> same_alphabet ref usr then (2, [], [AlphabetsDiffer])
      else tests_loop ref usr lines 0 0 [])"


section \<open>Invariants and notions used in the proofs and statements\<close>

text \<open>
  A transition cell of the subset construction is \<open>-1\<close> or a state index; \<open>dfa_ok\<close> says so for
  every row of \<open>dfa\<close>, and that every row has one cell per symbol.
\<close>

definition cell_ok :: "nat \<Rightarrow> int \<Rightarrow> bool" where
  "cell_ok n t = (t = - 1 \<or> (0 \<le> t \<and> t < int n))"

definition dfa_ok :: "nat \<Rightarrow> dfa_state list \<Rightarrow> bool" where
  "dfa_ok k dfa = (\<forall>d \<in> set dfa. length (trans d) = k \<and> (\<forall>t \<in> set (trans d). cell_ok (length dfa) t))"


text \<open>The completed table \<open>T\<close>: \<open>N\<close> rows of \<open>k\<close> state indices below \<open>N\<close>.\<close>

definition T_ok :: "nat \<Rightarrow> nat \<Rightarrow> int list list \<Rightarrow> bool" where
  "T_ok k N T = (length T = N \<and> (\<forall>row \<in> set T. length row = k \<and> (\<forall>t \<in> set row. 0 \<le> t \<and> t < int N)))"


text \<open>
  \<open>hop_inv\<close> is the invariant of the refinement loop: every block is non-empty and \<open>cls\<close> maps
  each member of block \<open>i\<close> to \<open>i\<close>. \<open>cls_ok\<close> is what the writer needs of the result: class
  ids below \<open>min_n\<close>, and every class has a member.
\<close>

definition cls_ok :: "nat \<Rightarrow> nat list \<Rightarrow> nat \<Rightarrow> bool" where
  "cls_ok N cls min_n =
     (length cls = N \<and> (\<forall>s < N. cls ! s < min_n) \<and> (\<forall>c < min_n. \<exists>s < N. cls ! s = c))"

definition hop_inv :: "nat \<Rightarrow> nat list list \<Rightarrow> nat list \<Rightarrow> bool" where
  "hop_inv N P cls =
     (length cls = N
      \<and> (\<forall>i < length P. P ! i \<noteq> [] \<and> (\<forall>s \<in> set (P ! i). s < N \<and> cls ! s = i))
      \<and> (\<forall>s < N. cls ! s < length P))"

definition file_ok :: "dfa_file \<Rightarrow> bool" where
  "file_ok d =
     (length (f_trans d) = f_states d
      \<and> (\<forall>row \<in> set (f_trans d).
            length row = length (f_alphabet d) \<and> (\<forall>t \<in> set row. t < f_states d))
      \<and> f_start d < f_states d
      \<and> (\<forall>i \<in> set (f_accept d). i < f_states d))"


text \<open>
  The states of an emitted DFA that can be reached from its start state: \<open>n\<close> rounds of
  following the transition rows, for a DFA of \<open>n\<close> states.
\<close>

definition step_states :: "dfa_file \<Rightarrow> nat set \<Rightarrow> nat set" where
  "step_states d S = S \<union> (\<Union>s \<in> S. set (f_trans d ! s))"

definition reachable_states :: "dfa_file \<Rightarrow> nat set" where
  "reachable_states d = (step_states d ^^ f_states d) {f_start d}"

text \<open>
  A line of the tests file is acceptable for two DFAs when it is skipped, or is a test whose
  string is over the alphabet and on which both DFAs agree.
\<close>

definition test_ok :: "DFA \<Rightarrow> DFA \<Rightarrow> string \<Rightarrow> bool" where
  "test_ok ref usr line =
     (case parse_test_line line of
        Skip \<Rightarrow> True
      | Test label w \<Rightarrow> set w \<subseteq> set (dalphabet ref) \<and> run_dfa ref w = run_dfa usr w
      | _ \<Rightarrow> False)"

definition count_tests :: "string list \<Rightarrow> nat" where
  "count_tests lines = length (filter (\<lambda>l. parse_test_line l \<noteq> Skip) lines)"


section \<open>Alphabet and pattern validation\<close>

lemma is_alphabet_symbol_iff: "is_alphabet_symbol alphabet c \<longleftrightarrow> c \<in> set alphabet"
  by (induction alphabet) auto

lemma is_meta_not_separator:
  "is_meta c \<Longrightarrow> \<not> (c = CHR 0x0A \<or> c = CHR 0x0D) \<and> \<not> (isspace c \<or> c = CHR '','' \<or> c = CHR '';'')"
  by (auto simp: is_meta_def isspace_def)

lemma parse_alphabet_loop_meta:
  "c \<in> set line \<Longrightarrow> is_meta c \<Longrightarrow> \<exists>r. parse_alphabet_loop line acc = Inl (BadAlphabet r)"
proof (induction line arbitrary: acc)
  case Nil
  then show ?case by simp
next
  case (Cons x xs)
  show ?case
  proof (cases "x = c")
    case True
    with Cons.prems(2) is_meta_not_separator[of c] show ?thesis by simp
  next
    case False
    with Cons.prems have "c \<in> set xs" by simp
    from Cons.IH[OF this Cons.prems(2)] show ?thesis by simp
  qed
qed

lemma parse_alphabet_line_meta:
  "c \<in> set line \<Longrightarrow> is_meta c \<Longrightarrow> \<exists>r. parse_alphabet_line line = Inl (BadAlphabet r)"
  using parse_alphabet_loop_meta[of c line "[]"] by (auto simp: parse_alphabet_line_def)

lemma compile_dfa_bad_alphabet:
  "parse_alphabet_line line_alpha = Inl e \<Longrightarrow> compile_dfa line_regex line_alpha = Inl e"
  by (simp add: compile_dfa_def)

lemma compiler_main_Inl:
  "compile_dfa line_regex line_alpha = Inl e \<Longrightarrow> compiler_main line_regex line_alpha = Inl e"
  by (simp add: compiler_main_def)


lemma parse_alphabet_loop_no_eps:
  "parse_alphabet_loop line acc = Inr alphabet \<Longrightarrow> EPS_TOK \<notin> set acc \<Longrightarrow>
   EPS_TOK \<notin> set alphabet"
proof (induction line arbitrary: acc)
  case Nil
  then show ?case by simp
next
  case (Cons c rest)
  show ?case
  proof (cases "(c = CHR 0x0A \<or> c = CHR 0x0D) \<or> (isspace c \<or> c = CHR '','' \<or> c = CHR '';'')")
    case True
    with Cons.prems have "parse_alphabet_loop rest acc = Inr alphabet"
      by (auto split: if_splits)
    from Cons.IH[OF this Cons.prems(2)] show ?thesis .
  next
    case False
    with Cons.prems have r: "parse_alphabet_loop rest (acc @ [c]) = Inr alphabet" and "c \<noteq> EPS_TOK"
      by (auto split: if_splits)
    with Cons.prems(2) have "EPS_TOK \<notin> set (acc @ [c])" by simp
    from Cons.IH[OF r this] show ?thesis .
  qed
qed

lemma parse_alphabet_line_no_eps:
  "parse_alphabet_line line = Inr alphabet \<Longrightarrow> EPS_TOK \<notin> set alphabet"
  using parse_alphabet_loop_no_eps[of line "[]" alphabet]
  by (auto simp: parse_alphabet_line_def split: sum.splits if_splits)


text \<open>A comma or a semicolon in the alphabet line is a separator: it is skipped, never stored.\<close>

lemma parse_alphabet_loop_separator:
  "c = CHR '','' \<or> c = CHR '';'' \<Longrightarrow>
   parse_alphabet_loop (c # rest) acc = parse_alphabet_loop rest acc"
  by auto

lemma check_regex_symbols_valid_append:
  "check_regex_symbols_valid alphabet pre = Inr () \<Longrightarrow>
   check_regex_symbols_valid alphabet (pre @ rest) = check_regex_symbols_valid alphabet rest"
  by (induction pre) (auto split: if_splits)

lemma check_regex_first_bad_nonascii:
  assumes "check_regex_symbols_valid alphabet pre = Inr ()" "(of_char b :: nat) \<ge> 128"
    "b \<notin> set alphabet"
  shows "check_regex_symbols_valid alphabet (pre @ b # post) = Inl NonAsciiPatternByte"
proof -
  have "b \<noteq> EPS_TOK" "b \<noteq> CHR ''|''" "b \<noteq> CHR ''+''" "b \<noteq> CHR ''*''" "b \<noteq> CHR ''(''"
    "b \<noteq> CHR '')''" "b \<noteq> CHR ''.''"
    using assms(2) by (auto simp: EPS_TOK_def)
  then have "check_regex_symbols_valid alphabet (b # post) = Inl NonAsciiPatternByte"
    using assms(2,3) by (simp add: is_alphabet_symbol_iff)
  then show ?thesis using check_regex_symbols_valid_append[OF assms(1)] by simp
qed

lemma add_concat_loop_eq:
  "i \<le> length inp \<Longrightarrow>
   add_concat_loop alphabet inp i out =
     out @ concat (map (\<lambda>i. if i + 1 < length inp \<and> need_concat alphabet (inp ! i) (inp ! (i + 1))
                            then [inp ! i, CHR ''.''] else [inp ! i]) [i..<length inp])"
proof (induction alphabet inp i out rule: add_concat_loop.induct)
  case (1 alphabet inp i out)
  show ?case
  proof (cases "i < length inp")
    case True
    then have u: "[i..<length inp] = i # [Suc i..<length inp]" by (rule upt_conv_Cons)
    from True have le: "i + 1 \<le> length inp" by simp
    show ?thesis
      using "1.IH"[OF True refl refl le] True
      by (subst add_concat_loop.simps) (simp add: u Let_def)
  next
    case False
    then show ?thesis by (subst add_concat_loop.simps) simp
  qed
qed


section \<open>Epsilon encodings\<close>

lemma take_eq_length: "take n rest = pat \<Longrightarrow> length pat = n \<Longrightarrow> n \<le> length rest"
proof -
  assume "take n rest = pat" "length pat = n"
  then have "length (take n rest) = n" by simp
  then show ?thesis by simp
qed

lemma take_append_token:
  assumes "tk \<noteq> []" "hd tk \<notin> set pat" "length pat = n"
  shows "(take n (rest @ tk @ ys) = pat) = (take n rest = pat)"
proof (cases "n \<le> length rest")
  case True
  then show ?thesis by simp
next
  case False
  then have short: "length rest < length pat" using assms(3) by simp
  have ne: "take n rest \<noteq> pat"
    using take_eq_length[of n rest pat] False assms(3) by blast
  have "take n (rest @ tk @ ys) \<noteq> pat"
  proof
    assume eq: "take n (rest @ tk @ ys) = pat"
    have "pat ! length rest = take n (rest @ tk @ ys) ! length rest"
      by (simp only: eq)
    also have "\<dots> = (rest @ tk @ ys) ! length rest"
      by (rule nth_take) (use short assms(3) in simp)
    also have "\<dots> = hd tk" using assms(1) by (simp add: nth_append hd_conv_nth)
    finally have "hd tk = pat ! length rest" by simp
    then have "hd tk \<in> set pat" using short by simp
    with assms(2) show False by simp
  qed
  with ne show ?thesis by simp
qed

lemma drop_append_token:
  "take n rest = pat \<Longrightarrow> length pat = n \<Longrightarrow> drop n (rest @ zs) = drop n rest @ zs"
  using take_eq_length[of n rest pat] by simp

lemma preprocess_regex_token:
  assumes tk: "tk \<noteq> []" "hd tk \<notin> set ''eps>''" "hd tk \<noteq> CHR 0xB5"
    and base: "preprocess_regex (tk @ ys) = EPS_TOK # preprocess_regex ys"
  shows "preprocess_regex (xs @ tk @ ys) = preprocess_regex xs @ EPS_TOK # preprocess_regex ys"
proof (induction xs rule: preprocess_regex.induct)
  case 1
  show ?case using base by simp
next
  case (2 b rest)
  have t4: "(take 4 (rest @ tk @ ys) = ''eps>'') = (take 4 rest = ''eps>'')"
    by (rule take_append_token) (use tk in \<open>simp_all del: take_append\<close>)
  have t1: "(take (Suc 0) (rest @ tk @ ys) = [CHR 0xB5]) = (take (Suc 0) rest = [CHR 0xB5])"
    by (rule take_append_token) (use tk in \<open>simp_all del: take_append\<close>)
  have d4: "take 4 rest = ''eps>'' \<Longrightarrow> drop 4 (rest @ tk @ ys) = drop 4 rest @ tk @ ys"
    by (rule drop_append_token[where pat = "''eps>''"]) simp_all
  have d1: "take (Suc 0) rest = [CHR 0xB5] \<Longrightarrow>
            drop (Suc 0) (rest @ tk @ ys) = drop (Suc 0) rest @ tk @ ys"
    by (rule drop_append_token[where pat = "[CHR 0xB5]"]) simp_all
  note [simp del] = take_append drop_append
  show ?case
  proof (cases "b = CHR 0x0D \<or> b = CHR 0x0A")
    case True
    with "2.IH"(1) show ?thesis by simp
  next
    case nl: False
    show ?thesis
    proof (cases "isspace b")
      case True
      with nl "2.IH"(2) show ?thesis by simp
    next
      case sp: False
      show ?thesis
      proof (cases "b = CHR ''<'' \<and> take 4 rest = ''eps>''")
        case True
        with nl sp "2.IH"(3) show ?thesis by (simp add: t4 d4)
      next
        case e5: False
        show ?thesis
        proof (cases "b = CHR 0xCE \<and> take 1 rest = [CHR 0xB5]")
          case True
          with nl sp e5 "2.IH"(4) show ?thesis by (simp add: t4 t1 d1)
        next
          case False
          with nl sp e5 "2.IH"(5) show ?thesis by (auto simp: t1 t4)
        qed
      qed
    qed
  qed
qed

lemma preprocess_raw_eps:
  "preprocess_regex (xs @ [CHR 0x01] @ ys) = preprocess_regex xs @ EPS_TOK # preprocess_regex ys"
  by (rule preprocess_regex_token) (simp_all add: isspace_def EPS_TOK_def)

lemma preprocess_ascii_eps:
  "preprocess_regex (xs @ ''<eps>'' @ ys) = preprocess_regex xs @ EPS_TOK # preprocess_regex ys"
  by (rule preprocess_regex_token) (simp_all add: isspace_def)

lemma preprocess_utf8_eps:
  "preprocess_regex (xs @ [CHR 0xCE, CHR 0xB5] @ ys)
   = preprocess_regex xs @ EPS_TOK # preprocess_regex ys"
  by (rule preprocess_regex_token) (simp_all add: isspace_def)

lemma compile_dfa_cong:
  "preprocess_regex r1 = preprocess_regex r2 \<Longrightarrow> compile_dfa r1 a = compile_dfa r2 a"
  by (auto simp: compile_dfa_def split: sum.splits)


section \<open>The subset construction fills every cell with \<open>-1\<close> or a state\<close>

lemma cell_ok_mono: "cell_ok n t \<Longrightarrow> n \<le> m \<Longrightarrow> cell_ok m t"
  by (auto simp: cell_ok_def)

lemma find_from_range:
  "find_from ds s i = - 1 \<or> (int i \<le> find_from ds s i \<and> find_from ds s i < int (i + length ds))"
proof (induction ds arbitrary: i)
  case Nil
  then show ?case by simp
next
  case (Cons d ds)
  from Cons.IH[of "i + 1"] show ?case by auto
qed

lemma find_dfa_state_ok: "cell_ok (length dfa) (find_dfa_state dfa s)"
  using find_from_range[of dfa s 0] by (auto simp: find_dfa_state_def cell_ok_def)

lemma dfa_add_state_ok:
  assumes "dfa_ok k dfa" "dfa_add_state k dfa s acc = Inr (dfa', ex)"
  shows "dfa_ok k dfa' \<and> cell_ok (length dfa') (int ex) \<and> length dfa' = length dfa + 1"
proof -
  let ?d = "\<lparr>nset = s, is_accept = (acc \<in> s), trans = replicate k (- 1)\<rparr>"
  from assms(2) have d': "dfa' = dfa @ [?d]" and ex: "ex = length dfa"
    by (auto simp: dfa_add_state_def split: if_splits)
  have "dfa_ok k (dfa @ [?d])"
    unfolding dfa_ok_def
  proof
    fix d assume "d \<in> set (dfa @ [?d])"
    then consider "d \<in> set dfa" | "d = ?d" by auto
    then show "length (trans d) = k \<and> (\<forall>t \<in> set (trans d). cell_ok (length (dfa @ [?d])) t)"
    proof cases
      case 1
      with assms(1) have "length (trans d) = k" "\<forall>t \<in> set (trans d). cell_ok (length dfa) t"
        by (auto simp: dfa_ok_def)
      then show ?thesis using cell_ok_mono[of "length dfa" _ "length (dfa @ [?d])"] by auto
    next
      case 2
      then show ?thesis by (auto simp: cell_ok_def)
    qed
  qed
  then show ?thesis using d' ex by (simp add: cell_ok_def)
qed

lemma set_trans_ok:
  assumes "dfa_ok k dfa" "cell_ok (length dfa) t"
  shows "dfa_ok k (set_trans dfa sid ai t)"
proof (cases "sid < length dfa")
  case False
  then have "dfa[sid := (dfa ! sid)\<lparr>trans := (trans (dfa ! sid))[ai := t]\<rparr>] = dfa"
    by (intro list_update_beyond) simp
  then show ?thesis using assms(1) by (simp add: set_trans_def)
next
  case True
  let ?d = "(dfa ! sid)\<lparr>trans := (trans (dfa ! sid))[ai := t]\<rparr>"
  have old: "length (trans (dfa ! sid)) = k" "\<forall>u \<in> set (trans (dfa ! sid)). cell_ok (length dfa) u"
    using assms(1) True by (auto simp: dfa_ok_def)
  have new: "length (trans ?d) = k \<and> (\<forall>u \<in> set (trans ?d). cell_ok (length dfa) u)"
    using old assms(2) set_update_subset_insert[of "trans (dfa ! sid)" ai t] by auto
  show ?thesis
    unfolding dfa_ok_def set_trans_def
  proof
    fix d assume "d \<in> set (dfa[sid := ?d])"
    then have "d \<in> insert ?d (set dfa)"
      using set_update_subset_insert[of dfa sid ?d] by blast
    then show "length (trans d) = k
               \<and> (\<forall>u \<in> set (trans d). cell_ok (length (dfa[sid := ?d])) u)"
      using new assms(1) by (auto simp: dfa_ok_def)
  qed
qed

lemma dfa_sym_loop_ok:
  "dfa_ok (length alphabet) dfa \<Longrightarrow>
   dfa_sym_loop nfa acc alphabet sid ais dfa q = Inr (dfa', q') \<Longrightarrow>
   dfa_ok (length alphabet) dfa'"
proof (induction ais arbitrary: dfa q)
  case Nil
  then show ?case by simp
next
  case (Cons ai ais)
  let ?mv = "move_on_symbol nfa (nset (dfa ! sid)) (alphabet ! ai)"
  let ?cl = "eps_closure nfa ?mv"
  show ?case
  proof (cases "?mv = {}")
    case True
    with Cons.prems have r:
      "dfa_sym_loop nfa acc alphabet sid ais (set_trans dfa sid ai (- 1)) q = Inr (dfa', q')"
      by simp
    have "dfa_ok (length alphabet) (set_trans dfa sid ai (- 1))"
      by (rule set_trans_ok[OF Cons.prems(1)]) (simp add: cell_ok_def)
    from Cons.IH[OF this r] show ?thesis .
  next
    case False
    show ?thesis
    proof (cases "find_dfa_state dfa ?cl < 0")
      case neg: True
      with False Cons.prems obtain dfa1 ex1 where
        add: "dfa_add_state (length alphabet) dfa ?cl acc = Inr (dfa1, ex1)" and
        rec: "dfa_sym_loop nfa acc alphabet sid ais (set_trans dfa1 sid ai (int ex1)) (q @ [ex1])
              = Inr (dfa', q')"
        by (auto simp: Let_def split: sum.splits)
      from dfa_add_state_ok[OF Cons.prems(1) add] have
        "dfa_ok (length alphabet) dfa1" "cell_ok (length dfa1) (int ex1)" by blast+
      then have "dfa_ok (length alphabet) (set_trans dfa1 sid ai (int ex1))"
        by (rule set_trans_ok)
      from Cons.IH[OF this rec] show ?thesis .
    next
      case nonneg: False
      with False Cons.prems have r:
        "dfa_sym_loop nfa acc alphabet sid ais (set_trans dfa sid ai (find_dfa_state dfa ?cl)) q
         = Inr (dfa', q')"
        by (simp add: Let_def)
      have "dfa_ok (length alphabet) (set_trans dfa sid ai (find_dfa_state dfa ?cl))"
        by (rule set_trans_ok[OF Cons.prems(1) find_dfa_state_ok])
      from Cons.IH[OF this r] show ?thesis .
    qed
  qed
qed

lemma nfa_to_dfa_loop_ok:
  "dfa_ok (length alphabet) dfa \<Longrightarrow> dfa \<noteq> [] \<Longrightarrow>
   nfa_to_dfa_loop nfa acc alphabet dfa q = Inr dfa' \<Longrightarrow>
   dfa_ok (length alphabet) dfa' \<and> dfa' \<noteq> []"
proof (induction nfa acc alphabet dfa q rule: nfa_to_dfa_loop.induct)
  case (1 nfa acc alphabet dfa)
  then show ?case by simp
next
  case (2 nfa acc alphabet dfa sid q)
  from "2.prems"(3) obtain dfa1 q1 where
    s: "dfa_sym_loop nfa acc alphabet sid [0..<length alphabet] dfa q = Inr (dfa1, q1)" and
    r: "nfa_to_dfa_loop nfa acc alphabet dfa1 q1 = Inr dfa'"
    by (auto split: sum.splits)
  have ok1: "dfa_ok (length alphabet) dfa1" by (rule dfa_sym_loop_ok[OF "2.prems"(1) s])
  have ne1: "dfa1 \<noteq> []" using dfa_sym_loop_grows[OF s] "2.prems"(2) by auto
  show ?case by (rule "2.IH"[OF s refl ok1 ne1 r])
qed

lemma nfa_to_dfa_ok:
  assumes "nfa_to_dfa nfa alphabet s acc = Inr dfa"
  shows "dfa_ok (length alphabet) dfa \<and> dfa \<noteq> []"
proof -
  from assms obtain dfa0 d0 where
    a: "dfa_add_state (length alphabet) [] (eps_closure nfa {s}) acc = Inr (dfa0, d0)" and
    r: "nfa_to_dfa_loop nfa acc alphabet dfa0 [d0] = Inr dfa"
    by (auto simp: nfa_to_dfa_def split: sum.splits)
  have "dfa_ok (length alphabet) []" by (simp add: dfa_ok_def)
  from dfa_add_state_ok[OF this a] have "dfa_ok (length alphabet) dfa0" "dfa0 \<noteq> []" by auto
  then show ?thesis using r by (rule nfa_to_dfa_loop_ok)
qed

lemma need_dead_of_iff:
  "need_dead_of k dfa \<longleftrightarrow> (\<exists>d \<in> set dfa. \<exists>a < k. trans d ! a = - 1)"
  by (fastforce simp: need_dead_of_def list_ex_iff)

lemma build_T_ok:
  assumes "dfa_ok k dfa"
  shows "T_ok k (num_states k dfa) (build_T k dfa)"
proof -
  let ?N = "num_states k dfa"
  have cell: "0 \<le> (let t = trans d ! a in if t = - 1 then dead_of k dfa else t)
              \<and> (let t = trans d ! a in if t = - 1 then dead_of k dfa else t) < int ?N"
    if d: "d \<in> set dfa" and a: "a < k" for d a
  proof -
    from assms d a have "trans d ! a \<in> set (trans d)" by (simp add: dfa_ok_def)
    with assms d have c: "cell_ok (length dfa) (trans d ! a)" by (auto simp: dfa_ok_def)
    show ?thesis
    proof (cases "trans d ! a = - 1")
      case True
      with d a have "need_dead_of k dfa" by (auto simp: need_dead_of_iff)
      with True show ?thesis by (simp add: dead_of_def num_states_def)
    next
      case False
      with c show ?thesis by (auto simp: cell_ok_def num_states_def)
    qed
  qed
  have rows: "length row = k \<and> (\<forall>t \<in> set row. 0 \<le> t \<and> t < int ?N)"
    if "row \<in> set (build_T k dfa)" for row
  proof -
    from that consider d where "d \<in> set dfa"
        "row = map (\<lambda>a. let t = trans d ! a in if t = - 1 then dead_of k dfa else t) [0..<k]"
      | "need_dead_of k dfa" "row = replicate k (dead_of k dfa)"
      by (auto simp: build_T_def split: if_splits)
    then show ?thesis
    proof cases
      case 1
      then show ?thesis using cell by auto
    next
      case 2
      then show ?thesis by (auto simp: dead_of_def num_states_def)
    qed
  qed
  have "length (build_T k dfa) = ?N" by (simp add: build_T_def num_states_def)
  with rows show ?thesis unfolding T_ok_def by blast
qed


section \<open>The refinement loop keeps the blocks non-empty and \<open>cls\<close> in step\<close>

lemma length_assign_cls: "length (assign_cls cls block i) = length cls"
  unfolding assign_cls_def by (induction block arbitrary: cls) auto

lemma nth_assign_cls:
  "s < length cls \<Longrightarrow> assign_cls cls block i ! s = (if s \<in> set block then i else cls ! s)"
  unfolding assign_cls_def
proof (induction block arbitrary: cls)
  case Nil
  then show ?case by simp
next
  case (Cons x block)
  have "s < length (cls[x := i])" using Cons.prems by simp
  from Cons.IH[OF this] Cons.prems show ?case by (auto simp: nth_list_update)
qed

lemma split_block_inv:
  assumes inv: "hop_inv N P cls" and yi: "yi < length P"
    and c0: "block_count mark (P ! yi) \<noteq> 0"
    and c1: "block_count mark (P ! yi) \<noteq> length (P ! yi)"
    and sp: "split_block mark yi (P, cls, W) = (P', cls', W')"
  shows "hop_inv N P' cls'"
proof -
  let ?Y = "P ! yi"
  let ?Y1 = "filter (\<lambda>s. mark ! s) ?Y"
  let ?Y2 = "filter (\<lambda>s. \<not> mark ! s) ?Y"
  have Pyi: "(P[yi := ?Y1] @ [?Y2]) ! yi = ?Y1" using yi by (simp add: nth_append)
  have Pnew: "(P[yi := ?Y1] @ [?Y2]) ! length P = ?Y2" by (simp add: nth_append)
  from sp have P': "P' = P[yi := ?Y1] @ [?Y2]"
    by (simp add: split_block_def Let_def)
  from sp have cls': "cls' = assign_cls (assign_cls cls ?Y1 yi) ?Y2 (length P)"
    by (simp add: split_block_def Let_def Pyi Pnew del: nth_append_length)
  have len: "length cls = N" and
    mem: "\<And>i s. i < length P \<Longrightarrow> s \<in> set (P ! i) \<Longrightarrow> s < N \<and> cls ! s = i" and
    rng: "\<And>s. s < N \<Longrightarrow> cls ! s < length P"
    using inv by (auto simp: hop_inv_def)
  have nth': "cls' ! s = (if s \<in> set ?Y2 then length P else if s \<in> set ?Y1 then yi else cls ! s)"
    if "s < N" for s
    using that len by (simp add: cls' nth_assign_cls length_assign_cls)
  have Y1ne: "?Y1 \<noteq> []" using c0 by (simp add: block_count_def)
  have "length ?Y1 + length ?Y2 = length ?Y"
    using sum_length_filter_compl[of "\<lambda>s. mark ! s" ?Y] by simp
  with c1 have Y2ne: "?Y2 \<noteq> []" by (auto simp: block_count_def)
  have lenP': "length P' = length P + 1" by (simp add: P')
  have blocks: "P' ! i \<noteq> [] \<and> (\<forall>s \<in> set (P' ! i). s < N \<and> cls' ! s = i)"
    if i: "i < length P'" for i
  proof -
    consider "i = yi" | "i = length P" | "i \<noteq> yi" "i < length P"
      using i lenP' by linarith
    then show ?thesis
    proof cases
      case 1
      have "P' ! i = ?Y1" using 1 P' Pyi by simp
      moreover have "s < N \<and> cls' ! s = yi" if "s \<in> set ?Y1" for s
      proof -
        from that have "s \<in> set ?Y" "s \<notin> set ?Y2" by auto
        with mem[OF yi] that show ?thesis by (auto simp: nth')
      qed
      ultimately show ?thesis using Y1ne 1 by auto
    next
      case 2
      have "P' ! i = ?Y2" using 2 P' Pnew by simp
      moreover have "s < N \<and> cls' ! s = length P" if "s \<in> set ?Y2" for s
      proof -
        from that have "s \<in> set ?Y" by auto
        with mem[OF yi] that show ?thesis by (auto simp: nth')
      qed
      ultimately show ?thesis using Y2ne 2 by auto
    next
      case 3
      then have Pi: "P' ! i = P ! i" by (simp add: P' nth_append)
      have "s < N \<and> cls' ! s = i" if "s \<in> set (P ! i)" for s
      proof -
        from mem[OF 3(2) that] have s: "s < N" "cls ! s = i" by auto
        have "s \<notin> set ?Y"
        proof
          assume "s \<in> set ?Y"
          from mem[OF yi this] s 3(1) show False by simp
        qed
        then show ?thesis using s by (auto simp: nth')
      qed
      then show ?thesis using Pi mem[OF 3(2)] inv 3(2) by (auto simp: hop_inv_def)
    qed
  qed
  have "cls' ! s < length P'" if "s < N" for s
    using rng[OF that] yi by (auto simp: nth'[OF that] lenP')
  moreover have "length cls' = N" using len by (simp add: cls' length_assign_cls)
  ultimately show ?thesis using blocks unfolding hop_inv_def by blast
qed

lemma yi_loop_inv:
  "hop_inv N P cls \<Longrightarrow> yi_loop mark yi (P, cls, W) = (P', cls', W') \<Longrightarrow> hop_inv N P' cls'"
proof (induction mark yi "(P, cls, W)" arbitrary: P cls W rule: yi_loop.induct)
  case (1 mark yi P cls W)
  show ?case
  proof (cases "yi < length P")
    case False
    with "1.prems" show ?thesis by simp
  next
    case lt: True
    show ?thesis
    proof (cases "block_count mark (P ! yi) = 0 \<or> block_count mark (P ! yi) = length (P ! yi)")
      case True
      with lt "1.prems" have "yi_loop mark (yi + 1) (P, cls, W) = (P', cls', W')" by simp
      from "1.hyps"(1)[OF lt refl True "1.prems"(1) this] show ?thesis .
    next
      case False
      obtain P1 cls1 W1 where s: "split_block mark yi (P, cls, W) = (P1, cls1, W1)"
        by (cases "split_block mark yi (P, cls, W)") auto
      from False lt "1.prems" s have r: "yi_loop mark (yi + 1) (P1, cls1, W1) = (P', cls', W')"
        by simp
      have "hop_inv N P1 cls1"
        using split_block_inv[OF "1.prems"(1) lt _ _ s] False by simp
      from "1.hyps"(2)[OF lt refl False s this r] show ?thesis .
    qed
  qed
qed

lemma a_loop_inv:
  "hop_inv N P cls \<Longrightarrow> a_loop invb N' Ablock as (P, cls, W) = (P', cls', W') \<Longrightarrow>
   hop_inv N P' cls'"
proof (induction as arbitrary: P cls W)
  case Nil
  then show ?case by simp
next
  case (Cons a as)
  obtain P1 cls1 W1 where
    y: "yi_loop (compute_mark invb N' a (P ! Ablock)) 0 (P, cls, W) = (P1, cls1, W1)"
    by (cases "yi_loop (compute_mark invb N' a (P ! Ablock)) 0 (P, cls, W)") auto
  with Cons.prems have r: "a_loop invb N' Ablock as (P1, cls1, W1) = (P', cls', W')" by simp
  from Cons.IH[OF yi_loop_inv[OF Cons.prems(1) y] r] show ?case .
qed

lemma hopcroft_loop_inv:
  "hop_inv N P cls \<Longrightarrow> hopcroft_loop invb N' k (P, cls, W) = (P', cls', W') \<Longrightarrow>
   hop_inv N P' cls'"
proof (induction invb N' k "(P, cls, W)" arbitrary: P cls W rule: hopcroft_loop.induct)
  case (1 invb N' k P cls W)
  show ?case
  proof (cases "W = []")
    case True
    with "1.prems" show ?thesis by simp
  next
    case False
    obtain P1 cls1 W1 where
      a: "a_loop invb N' (last W) [0..<k] (P, cls, butlast W) = (P1, cls1, W1)"
      by (cases "a_loop invb N' (last W) [0..<k] (P, cls, butlast W)") auto
    with False "1.prems" have r: "hopcroft_loop invb N' k (P1, cls1, W1) = (P', cls', W')"
      by simp
    from "1.hyps"[OF False a a_loop_inv[OF "1.prems"(1) a] r] show ?thesis .
  qed
qed

lemma hop_inv_cls_ok: "hop_inv N P cls \<Longrightarrow> cls_ok N cls (length P)"
  unfolding hop_inv_def cls_ok_def
proof (intro conjI allI impI)
  fix c
  assume h: "length cls = N \<and> (\<forall>i<length P. P ! i \<noteq> [] \<and> (\<forall>s\<in>set (P ! i). s < N \<and> cls ! s = i))
             \<and> (\<forall>s<N. cls ! s < length P)" and c: "c < length P"
  then have "P ! c \<noteq> []" "\<forall>s\<in>set (P ! c). s < N \<and> cls ! s = c" by auto
  then have "hd (P ! c) < N \<and> cls ! hd (P ! c) = c" by simp
  then show "\<exists>s<N. cls ! s = c" by blast
qed auto

lemma initial_hop_inv:
  assumes F: "F = filter (\<lambda>s. A ! s) [0..<N]" and NF: "NF = filter (\<lambda>s. \<not> A ! s) [0..<N]"
    and ne: "F \<noteq> []" "NF \<noteq> []"
  shows "hop_inv N [F, NF] (assign_cls (assign_cls (replicate N 0) F 0) NF 1)"
proof -
  let ?cls = "assign_cls (assign_cls (replicate N 0) F 0) NF 1"
  have nth: "assign_cls (assign_cls (replicate N 0) F 0) NF (Suc 0) ! s
             = (if s \<in> set NF then 1 else 0)" if "s < N" for s
    using that by (simp add: nth_assign_cls length_assign_cls)
  have disj: "s \<in> set F \<Longrightarrow> s \<notin> set NF" for s by (auto simp: F NF)
  have inF: "s \<in> set F \<Longrightarrow> s < N" and inNF: "s \<in> set NF \<Longrightarrow> s < N" for s
    by (auto simp: F NF)
  have b: "[F, NF] ! i \<noteq> [] \<and> (\<forall>s \<in> set ([F, NF] ! i). s < N \<and> ?cls ! s = i)"
    if "i < length [F, NF]" for i
  proof -
    from that consider "i = 0" | "i = 1" by fastforce
    then show ?thesis
    proof cases
      case 1
      then show ?thesis using ne inF disj by (auto simp: nth)
    next
      case 2
      then show ?thesis using ne inNF by (auto simp: nth)
    qed
  qed
  have "?cls ! s < length [F, NF]" if "s < N" for s using that by (simp add: nth)
  moreover have "length ?cls = N" by (simp add: length_assign_cls)
  ultimately show ?thesis using b unfolding hop_inv_def by blast
qed

lemma dfa_minimize_ok:
  assumes N: "0 < num_states k dfa" and m: "dfa_minimize k dfa = (cls, min_n)"
  shows "cls_ok (num_states k dfa) cls min_n"
proof -
  let ?N = "num_states k dfa"
  let ?A = "build_A k dfa"
  let ?F = "filter (\<lambda>s. ?A ! s) [0..<?N]"
  let ?NF = "filter (\<lambda>s. \<not> ?A ! s) [0..<?N]"
  let ?cls0 = "assign_cls (assign_cls (replicate ?N 0) ?F 0) ?NF 1"
  let ?W0 = "if length ?F \<le> length ?NF then [0] else [1::nat]"
  let ?h = "hopcroft_loop (build_inv k ?N (build_T k dfa)) ?N k ([?F, ?NF], ?cls0, ?W0)"
  have dm: "dfa_minimize k dfa =
              (if length ?F = 0 \<or> length ?NF = 0 then (replicate ?N 0, 1)
               else case ?h of (P', cls', W') \<Rightarrow> (cls', length P'))"
    unfolding dfa_minimize_def Let_def by (simp del: hopcroft_loop.simps)
  show ?thesis
  proof (cases "length ?F = 0 \<or> length ?NF = 0")
    case True
    with m have "cls = replicate ?N 0" "min_n = 1" unfolding dm by simp_all
    then show ?thesis using N by (auto simp: cls_ok_def)
  next
    case False
    obtain P' cls' W' where h: "?h = (P', cls', W')" by (cases ?h) auto
    from False have ne: "?F \<noteq> []" "?NF \<noteq> []" by auto
    have "hop_inv ?N [?F, ?NF] ?cls0" by (rule initial_hop_inv[OF refl refl ne])
    from hopcroft_loop_inv[OF this h] have inv: "hop_inv ?N P' cls'" .
    from False m have "cls = cls'" "min_n = length P'" unfolding dm h by simp_all
    with hop_inv_cls_ok[OF inv] show ?thesis by simp
  qed
qed


section \<open>The writer\<close>

lemma build_rep_step_inv:
  assumes "cls_ok N cls min_n" "j \<le> N"
  shows "length (fold (\<lambda>s rep. if rep ! (cls ! s) = - 1 then rep[cls ! s := int s] else rep)
                      [0..<j] (replicate min_n (- 1))) = min_n
         \<and> (\<forall>c < min_n.
              (fold (\<lambda>s rep. if rep ! (cls ! s) = - 1 then rep[cls ! s := int s] else rep)
                    [0..<j] (replicate min_n (- 1)) ! c = - 1 \<and> (\<forall>s < j. cls ! s \<noteq> c))
            \<or> (0 \<le> fold (\<lambda>s rep. if rep ! (cls ! s) = - 1 then rep[cls ! s := int s] else rep)
                        [0..<j] (replicate min_n (- 1)) ! c
               \<and> fold (\<lambda>s rep. if rep ! (cls ! s) = - 1 then rep[cls ! s := int s] else rep)
                       [0..<j] (replicate min_n (- 1)) ! c < int j))"
  using assms(2)
proof (induction j)
  case 0
  then show ?case by simp
next
  case (Suc j)
  let ?f = "\<lambda>s rep. if rep ! (cls ! s) = - 1 then rep[cls ! s := int s] else rep"
  let ?r = "fold ?f [0..<j] (replicate min_n (- 1))"
  from Suc have jN: "j < N" by simp
  with assms(1) have cj: "cls ! j < min_n" by (simp add: cls_ok_def)
  from Suc have IH: "length ?r = min_n"
    "\<And>c. c < min_n \<Longrightarrow> (?r ! c = - 1 \<and> (\<forall>s < j. cls ! s \<noteq> c)) \<or> (0 \<le> ?r ! c \<and> ?r ! c < int j)"
    by auto
  have step: "fold ?f [0..<Suc j] (replicate min_n (- 1)) = ?f j ?r" by simp
  show ?case
  proof (cases "?r ! (cls ! j) = - 1")
    case True
    then have eq: "?f j ?r = ?r[cls ! j := int j]" by simp
    have "(?r[cls ! j := int j] ! c = - 1 \<and> (\<forall>s < Suc j. cls ! s \<noteq> c))
          \<or> (0 \<le> ?r[cls ! j := int j] ! c \<and> ?r[cls ! j := int j] ! c < int (Suc j))"
      if c: "c < min_n" for c
    proof (cases "c = cls ! j")
      case True
      then show ?thesis using c IH(1) by simp
    next
      case False
      then have "?r[cls ! j := int j] ! c = ?r ! c" by simp
      with IH(2)[OF c] False show ?thesis by (auto simp: less_Suc_eq)
    qed
    then show ?thesis using IH(1) unfolding step eq by simp
  next
    case False
    then have eq: "?f j ?r = ?r" by simp
    have "(?r ! c = - 1 \<and> (\<forall>s < Suc j. cls ! s \<noteq> c)) \<or> (0 \<le> ?r ! c \<and> ?r ! c < int (Suc j))"
      if c: "c < min_n" for c
      using IH(2)[OF c] False by (auto simp: less_Suc_eq)
    then show ?thesis using IH(1) unfolding step eq by simp
  qed
qed

lemma build_rep_ok:
  assumes "cls_ok N cls min_n" "c < min_n"
  shows "0 \<le> build_rep N min_n cls ! c \<and> build_rep N min_n cls ! c < int N"
proof -
  from assms obtain s where "s < N" "cls ! s = c" by (auto simp: cls_ok_def)
  with build_rep_step_inv[OF assms(1) le_refl] assms(2) show ?thesis
    unfolding build_rep_def by blast
qed

lemma write_min_dfa_ok:
  assumes dfa: "dfa_ok (length alphabet) dfa" and ne: "dfa \<noteq> []"
    and cls: "cls_ok (num_states (length alphabet) dfa) cls min_n"
  shows "file_ok (write_min_dfa alphabet dfa cls min_n)"
proof -
  let ?k = "length alphabet"
  let ?N = "num_states ?k dfa"
  let ?T = "build_T ?k dfa"
  let ?rep = "build_rep ?N min_n cls"
  from ne have N: "0 < ?N" by (simp add: num_states_def)
  have T: "T_ok ?k ?N ?T" by (rule build_T_ok[OF dfa])
  have cell: "cls ! nat (?T ! nat (?rep ! c) ! a) < min_n" if "c < min_n" "a < ?k" for c a
  proof -
    from build_rep_ok[OF cls that(1)] have r: "nat (?rep ! c) < ?N" by linarith
    with T have row: "?T ! nat (?rep ! c) \<in> set ?T" by (simp add: T_ok_def)
    with T that(2) have "?T ! nat (?rep ! c) ! a \<in> set (?T ! nat (?rep ! c))"
      by (simp add: T_ok_def)
    with T row have "0 \<le> ?T ! nat (?rep ! c) ! a \<and> ?T ! nat (?rep ! c) ! a < int ?N"
      unfolding T_ok_def by blast
    then have "nat (?T ! nat (?rep ! c) ! a) < ?N" by linarith
    with cls show ?thesis by (simp add: cls_ok_def)
  qed
  have start: "cls ! 0 < min_n" using cls N by (simp add: cls_ok_def)
  show ?thesis
    unfolding file_ok_def write_min_dfa_def Let_def
    using cell start by auto
qed

lemma compile_dfa_InrD:
  assumes "compile_dfa line_regex line_alpha = Inr d"
  obtains alphabet nfa s acc dfa cls min_n where
    "parse_alphabet_line line_alpha = Inr alphabet"
    "nfa_to_dfa nfa alphabet s acc = Inr dfa"
    "dfa_minimize (length alphabet) dfa = (cls, min_n)"
    "d = write_min_dfa alphabet dfa cls min_n"
  using assms unfolding compile_dfa_def Let_def
  by (auto split: sum.splits if_splits prod.splits)


section \<open>The comparator's loop\<close>

lemma alph_index_loop_found:
  "c \<in> set xs \<Longrightarrow> int i \<le> alph_index_loop xs c i"
proof (induction xs arbitrary: i)
  case Nil
  then show ?case by simp
next
  case (Cons x xs)
  show ?case
  proof (cases "x = c")
    case True
    then show ?thesis by simp
  next
    case False
    with Cons.prems have "c \<in> set xs" by simp
    from Cons.IH[OF this, of "i + 1"] False show ?thesis by simp
  qed
qed

lemma run_dfa_loop_over_alphabet:
  "set w \<subseteq> set (take (dk d) (dalphabet d)) \<Longrightarrow> run_dfa_loop d w st = 0 \<or> run_dfa_loop d w st = 1"
proof (induction w arbitrary: st)
  case Nil
  then show ?case by simp
next
  case (Cons c w)
  from Cons.prems have "c \<in> set (take (dk d) (dalphabet d))" by simp
  from alph_index_loop_found[OF this, of 0] have "\<not> alph_index d c < 0"
    by (simp add: alph_index_def)
  moreover from Cons.prems have "set w \<subseteq> set (take (dk d) (dalphabet d))" by simp
  ultimately show ?case using Cons.IH by (simp add: Let_def)
qed

lemma run_dfa_nonneg:
  "set w \<subseteq> set (take (dk d) (dalphabet d)) \<Longrightarrow> \<not> run_dfa d w < 0"
  using run_dfa_loop_over_alphabet[of w d "dstart d"] by (auto simp: run_dfa_def)

lemma tests_loop_pass:
  assumes al: "take (dk ref) (dalphabet ref) = dalphabet ref"
              "take (dk usr) (dalphabet usr) = dalphabet ref"
  shows "list_all (test_ok ref usr) lines \<Longrightarrow> list_all is_warning err \<Longrightarrow>
         \<exists>err'. tests_loop ref usr lines line_no tot err
                 = (0, pass_message (tot + count_tests lines), err')
               \<and> list_all is_warning err'"
proof (induction lines arbitrary: line_no tot err)
  case Nil
  then show ?case by (simp add: count_tests_def)
next
  case (Cons line rest)
  from Cons.prems have ok: "test_ok ref usr line" and rest: "list_all (test_ok ref usr) rest"
    by simp_all
  show ?case
  proof (cases "parse_test_line line")
    case Skip
    from Cons.IH[OF rest Cons.prems(2), of "line_no + 1" tot] Skip
    show ?thesis by (simp add: count_tests_def)
  next
    case BadLabel
    with ok show ?thesis by (simp add: test_ok_def)
  next
    case MissingString
    with ok show ?thesis by (simp add: test_ok_def)
  next
    case (Test label w)
    with ok have w: "set w \<subseteq> set (dalphabet ref)" and eq: "run_dfa ref w = run_dfa usr w"
      by (simp_all add: test_ok_def)
    have nn: "\<not> run_dfa ref w < 0" "\<not> run_dfa usr w < 0"
      using run_dfa_nonneg[of w ref] run_dfa_nonneg[of w usr] w al by simp_all
    show ?thesis
    proof (cases "run_dfa ref w \<noteq> label")
      case True
      have "is_warning (LabelWarning (line_no + 1) label (run_dfa ref w))"
        by (simp add: is_warning_def)
      then have "list_all is_warning (err @ [LabelWarning (line_no + 1) label (run_dfa ref w)])"
        using Cons.prems(2) by simp
      from Cons.IH[OF rest this, of "line_no + 1" "tot + 1"] Test nn eq True
      show ?thesis by (simp add: count_tests_def Let_def)
    next
      case False
      from Cons.IH[OF rest Cons.prems(2), of "line_no + 1" "tot + 1"] Test nn eq False
      show ?thesis by (simp add: count_tests_def Let_def)
    qed
  qed
qed


text \<open>
  A line of the form label, space, string, newline, with a string free of whitespace, is read
  as the test of that label and string.
\<close>

lemma trim_newline_line:
  assumes "xs \<noteq> []" "last xs \<noteq> CHR 0x0A" "last xs \<noteq> CHR 0x0D"
  shows "trim_newline (xs @ [CHR 0x0A]) = xs"
proof -
  from assms(1) obtain ys y where xs: "xs = ys @ [y]" by (cases xs rule: rev_cases) auto
  with assms(2,3) have "y \<noteq> CHR 0x0A" "y \<noteq> CHR 0x0D" by simp_all
  then show ?thesis by (simp add: trim_newline_def xs)
qed

lemma parse_test_line_format:
  assumes lab: "lab = CHR ''0'' \<or> lab = CHR ''1''" and w: "w \<noteq> []"
    and ns: "list_all (\<lambda>c. \<not> isspace c) w" and len: "length w < MAX_LINE"
  shows "parse_test_line (lab # CHR '' '' # w @ [CHR 0x0A])
         = Test (if lab = CHR ''1'' then 1 else 0) (if w = ''<eps>'' then [] else w)"
proof -
  have lw: "\<not> isspace (last w)" using ns w by (simp add: list_all_iff)
  then have l: "last (lab # CHR '' '' # w) \<noteq> CHR 0x0A" "last (lab # CHR '' '' # w) \<noteq> CHR 0x0D"
    using w by (auto simp: isspace_def)
  have t: "trim_newline (lab # CHR '' '' # w @ [CHR 0x0A]) = lab # CHR '' '' # w"
    using trim_newline_line[OF _ l] by simp
  have nl: "\<not> isspace lab" using lab by (auto simp: isspace_def)
  have sp: "isspace (CHR '' '')" by (simp add: isspace_def)
  have dw: "dropWhile isspace w = w" using ns w by (cases w) simp_all
  have tw: "takeWhile (\<lambda>c. \<not> isspace c) w = w"
    using ns by (simp add: list_all_iff)
  have tk: "take (MAX_LINE - 1) w = w" using len by simp
  have h: "lab \<noteq> CHR ''#''" using lab by auto
  have "parse_test_line (lab # CHR '' '' # w @ [CHR 0x0A])
        = (if lab \<noteq> CHR ''0'' \<and> lab \<noteq> CHR ''1'' then BadLabel
           else Test (if lab = CHR ''1'' then 1 else 0) (if w = ''<eps>'' then [] else w))"
    unfolding parse_test_line_def t
    by (simp only: Let_def dropWhile.simps nl sp dw tw tk h w if_False if_True list.sel
        list.distinct simp_thms)
  then show ?thesis using lab by auto
qed


section \<open>The errors each pass can raise\<close>

text \<open>
  After validation every byte of the pattern is the epsilon sentinel, an alphabet symbol or an
  operator, so the later passes never meet a byte they do not know.
\<close>

lemma parse_alphabet_loop_err:
  "parse_alphabet_loop line acc = Inl e \<Longrightarrow> \<exists>r. e = BadAlphabet r"
  by (induction line arbitrary: acc) (auto split: if_splits)

lemma parse_alphabet_line_err:
  "parse_alphabet_line line = Inl e \<Longrightarrow> \<exists>r. e = BadAlphabet r"
  using parse_alphabet_loop_err[of line "[]" e]
  by (auto simp: parse_alphabet_line_def split: sum.splits if_splits)

lemma check_regex_symbols_valid_err:
  "check_regex_symbols_valid alphabet s = Inl e \<Longrightarrow>
   e = ExplicitDot \<or> e = NonAsciiPatternByte \<or> (\<exists>c. e = BadPatternChar c \<and> c \<noteq> EPS_TOK)"
  by (induction s) (auto split: if_splits)

lemma check_regex_symbols_valid_tokens:
  "check_regex_symbols_valid alphabet s = Inr u \<Longrightarrow>
   set s \<subseteq> insert EPS_TOK (set alphabet \<union> set ''|+*()'')"
  by (induction s) (auto simp: is_alphabet_symbol_iff split: if_splits)

lemma check_parentheses_loop_err:
  "check_parentheses_loop s bal = Inl e \<Longrightarrow> \<exists>r. e = UnbalancedParens r"
  by (induction s arbitrary: bal) (auto simp: Let_def split: if_splits)

lemma set_add_concat_ops:
  "set (add_concat_ops alphabet s) \<subseteq> insert (CHR ''.'') (set s)"
  using add_concat_loop_eq[of 0 s alphabet "[]"]
  by (auto simp: add_concat_ops_def split: if_splits)

lemma pop_ops_sets:
  "pop_ops c st out = (st', out') \<Longrightarrow>
   set st' \<subseteq> set st \<and> set out' \<subseteq> set out \<union> (set st - {CHR ''(''})"
proof (induction st arbitrary: out)
  case Nil
  then show ?case by simp
next
  case (Cons o2 st)
  show ?case
  proof (cases "o2 \<noteq> CHR ''('' \<and> ((is_left_assoc c \<and> prec c \<le> prec o2)
                                     \<or> (\<not> is_left_assoc c \<and> prec c < prec o2))")
    case True
    with Cons.prems have "pop_ops c st (out @ [o2]) = (st', out')" by auto
    from Cons.IH[OF this] True show ?thesis by auto
  next
    case False
    with Cons.prems have "st' = o2 # st" "out' = out" by (auto split: if_splits)
    then show ?thesis by auto
  qed
qed

lemma pop_to_paren_sets:
  "pop_to_paren st out = (st', out') \<Longrightarrow>
   set st' \<subseteq> set st \<and> set out' \<subseteq> set out \<union> (set st - {CHR ''(''})"
proof (induction st arbitrary: out)
  case Nil
  then show ?case by simp
next
  case (Cons o2 st)
  show ?case
  proof (cases "o2 \<noteq> CHR ''(''")
    case True
    with Cons.prems have "pop_to_paren st (out @ [o2]) = (st', out')" by simp
    from Cons.IH[OF this] True show ?thesis by auto
  next
    case False
    with Cons.prems show ?thesis by auto
  qed
qed

lemma flush_ops_sets:
  "flush_ops st out = Inr r \<Longrightarrow> set r \<subseteq> set out \<union> (set st - {CHR ''(''})"
proof (induction st arbitrary: out)
  case Nil
  then show ?case by simp
next
  case (Cons o2 st)
  then have ne: "o2 \<noteq> CHR ''(''" and r: "flush_ops st (out @ [o2]) = Inr r"
    by (auto split: if_splits)
  from Cons.IH[OF r] ne show ?case by auto
qed

lemma flush_ops_err:
  "flush_ops st out = Inl e \<Longrightarrow> e = UnbalancedParens PostfixMismatch"
  by (induction st arbitrary: out) (auto split: if_splits)


lemma to_postfix_loop_ok:
  assumes "set s \<subseteq> insert EPS_TOK (set alphabet \<union> set ''|+*().'')"
    and "set st \<subseteq> set ''(|+.''"
    and "set out \<subseteq> insert EPS_TOK (set alphabet \<union> set ''*|+.'')"
  shows "(to_postfix_loop alphabet s st out = Inl e \<longrightarrow> e = UnbalancedParens PostfixMismatch)
         \<and> (to_postfix_loop alphabet s st out = Inr post \<longrightarrow>
              set post \<subseteq> insert EPS_TOK (set alphabet \<union> set ''*|+.''))"
  using assms
proof (induction s arbitrary: st out)
  case Nil
  have "set (st) - {CHR ''(''} \<subseteq> insert EPS_TOK (set alphabet \<union> set ''*|+.'')"
    using Nil.prems(2) by auto
  then show ?case
    using flush_ops_err[of st out e] flush_ops_sets[of st out post] Nil.prems(3) by auto
next
  case (Cons c rest)
  let ?PT = "insert EPS_TOK (set alphabet \<union> set ''*|+.'')"
  from Cons.prems(1) have rest: "set rest \<subseteq> insert EPS_TOK (set alphabet \<union> set ''|+*().'')"
    and c: "c = EPS_TOK \<or> c \<in> set alphabet \<or> c \<in> set ''|+*().''" by auto
  have stk: "set st - {CHR ''(''} \<subseteq> ?PT" using Cons.prems(2) by auto
  show ?case
  proof (cases "is_alphabet_symbol alphabet c \<or> c = EPS_TOK")
    case True
    then have "set (out @ [c]) \<subseteq> ?PT" using Cons.prems(3) by (auto simp: is_alphabet_symbol_iff)
    from Cons.IH[OF rest Cons.prems(2) this] True show ?thesis by simp
  next
    case nsym: False
    show ?thesis
    proof (cases "c = CHR ''(''")
      case True
      then have "set (c # st) \<subseteq> set ''(|+.''" using Cons.prems(2) by simp
      from Cons.IH[OF rest this Cons.prems(3)] nsym True show ?thesis by simp
    next
      case nopen: False
      show ?thesis
      proof (cases "c = CHR '')''")
        case True
        obtain st' out' where p: "pop_to_paren st out = (st', out')"
          by (cases "pop_to_paren st out") auto
        from pop_to_paren_sets[OF p] stk Cons.prems(2,3) have
          s': "set st' \<subseteq> set ''(|+.''" and o': "set out' \<subseteq> ?PT" by auto
        show ?thesis
        proof (cases st')
          case Nil
          with p nsym nopen True show ?thesis by simp
        next
          case (Cons q st'')
          with s' have "set st'' \<subseteq> set ''(|+.''" by simp
          from Cons.IH[OF rest this o'] p nsym nopen True Cons show ?thesis by simp
        qed
      next
        case nclose: False
        show ?thesis
        proof (cases "c = CHR ''*''")
          case True
          then have "set (out @ [c]) \<subseteq> ?PT" using Cons.prems(3) by simp
          from Cons.IH[OF rest Cons.prems(2) this] nsym nopen nclose True show ?thesis by simp
        next
          case nstar: False
          with c nsym nopen nclose have op: "c = CHR ''|'' \<or> c = CHR ''+'' \<or> c = CHR ''.''"
            by (auto simp: is_alphabet_symbol_iff)
          obtain st' out' where p: "pop_ops c st out = (st', out')"
            by (cases "pop_ops c st out") auto
          from pop_ops_sets[OF p] stk Cons.prems(2,3) have
            s': "set st' \<subseteq> set ''(|+.''" and o': "set out' \<subseteq> ?PT" by auto
          from s' op have "set (c # st') \<subseteq> set ''(|+.''" by auto
          from Cons.IH[OF rest this o'] p nsym nopen nclose nstar op show ?thesis by simp
        qed
      qed
    qed
  qed
qed

lemma new_two_err: "new_two nfa = Inl e \<Longrightarrow> e = NfaTooLarge"
  by (auto simp: new_two_def new_nfa_state_def split: if_splits sum.splits)

lemma postfix_loop_err:
  "set post \<subseteq> insert EPS_TOK (set alphabet \<union> set ''*|+.'') \<Longrightarrow>
   postfix_loop alphabet post nfa st = Inl e \<Longrightarrow>
   e = NfaTooLarge \<or> e = MalformedPostfix StackUnderflow"
proof (induction post arbitrary: nfa st)
  case Nil
  then show ?case by simp
next
  case (Cons c rest)
  from Cons.prems(1) have rest: "set rest \<subseteq> insert EPS_TOK (set alphabet \<union> set ''*|+.'')"
    and c: "c = EPS_TOK \<or> c \<in> set alphabet \<or> c \<in> set ''*|+.''" by auto
  note IH = Cons.IH[OF rest]
  show ?case
  proof (cases "is_alphabet_symbol alphabet c \<or> c = EPS_TOK")
    case True
    with Cons.prems(2) show ?thesis
      by (auto split: sum.splits if_splits dest: new_two_err IH)
  next
    case nsym: False
    show ?thesis
    proof (cases "c = CHR ''.''")
      case True
      with nsym Cons.prems(2) show ?thesis
        by (auto split: list.splits dest: IH)
    next
      case ndot: False
      show ?thesis
      proof (cases "c = CHR ''|'' \<or> c = CHR ''+''")
        case True
        with nsym ndot Cons.prems(2) show ?thesis
          by (auto split: list.splits sum.splits dest: new_two_err IH)
      next
        case False
        with c nsym ndot have "c = CHR ''*''" by (auto simp: is_alphabet_symbol_iff)
        with nsym Cons.prems(2) show ?thesis
          by (auto split: list.splits sum.splits dest: new_two_err IH)
      qed
    qed
  qed
qed

lemma postfix_to_nfa_err:
  "set post \<subseteq> insert EPS_TOK (set alphabet \<union> set ''*|+.'') \<Longrightarrow>
   postfix_to_nfa alphabet post = Inl e \<Longrightarrow>
   e = NfaTooLarge \<or> e = MalformedPostfix StackUnderflow \<or> e = MalformedPostfix NotSingleton"
  using postfix_loop_err[of post alphabet "[]" "[]" e]
  by (auto simp: postfix_to_nfa_def split: sum.splits list.splits)

lemma dfa_add_state_err: "dfa_add_state k dfa s acc = Inl e \<Longrightarrow> e = DfaTooLarge"
  by (auto simp: dfa_add_state_def split: if_splits)

lemma dfa_sym_loop_err:
  "dfa_sym_loop nfa acc alphabet sid ais dfa q = Inl e \<Longrightarrow> e = DfaTooLarge"
proof (induction ais arbitrary: dfa q)
  case Nil
  then show ?case by simp
next
  case (Cons ai ais)
  then show ?case
    by (auto simp: Let_def split: if_splits sum.splits dest: dfa_add_state_err)
qed

lemma nfa_to_dfa_loop_err:
  "nfa_to_dfa_loop nfa acc alphabet dfa q = Inl e \<Longrightarrow> e = DfaTooLarge"
proof (induction nfa acc alphabet dfa q rule: nfa_to_dfa_loop.induct)
  case (1 nfa acc alphabet dfa)
  then show ?case by simp
next
  case (2 nfa acc alphabet dfa sid q)
  show ?case
  proof (cases "dfa_sym_loop nfa acc alphabet sid [0..<length alphabet] dfa q")
    case (Inl e')
    with "2.prems" dfa_sym_loop_err[OF Inl] show ?thesis by simp
  next
    case (Inr r)
    obtain dfa1 q1 where r: "r = (dfa1, q1)" by (cases r) auto
    with Inr "2.prems" have "nfa_to_dfa_loop nfa acc alphabet dfa1 q1 = Inl e" by simp
    from "2.IH"[OF Inr[unfolded r] refl this] show ?thesis .
  qed
qed

lemma nfa_to_dfa_err: "nfa_to_dfa nfa alphabet s acc = Inl e \<Longrightarrow> e = DfaTooLarge"
  by (auto simp: nfa_to_dfa_def simp del: nfa_to_dfa_loop.simps split: sum.splits
      dest: dfa_add_state_err nfa_to_dfa_loop_err)


section \<open>The pattern that is one sentinel byte\<close>

lemma compile_dfa_errors:
  assumes "compile_dfa line_regex line_alpha = Inl e"
  shows "(\<exists>r. e = BadAlphabet r) \<or> e = EmptyRegex \<or> e = ExplicitDot \<or> e = NonAsciiPatternByte
         \<or> (\<exists>c. e = BadPatternChar c \<and> c \<noteq> EPS_TOK) \<or> (\<exists>r. e = UnbalancedParens r)
         \<or> e = MalformedPostfix StackUnderflow \<or> e = MalformedPostfix NotSingleton
         \<or> e = NfaTooLarge \<or> e = DfaTooLarge"
proof (cases "parse_alphabet_line line_alpha")
  case (Inl e1)
  with assms have "e = e1" by (simp add: compile_dfa_def)
  with parse_alphabet_line_err[OF Inl] show ?thesis by blast
next
  case (Inr alphabet)
  let ?r0 = "preprocess_regex line_regex"
  show ?thesis
  proof (cases "?r0 = []")
    case True
    with Inr assms show ?thesis by (simp add: compile_dfa_def)
  next
    case ne: False
    show ?thesis
    proof (cases "check_regex_symbols_valid alphabet ?r0")
      case (Inl e1)
      with Inr ne assms have "e = e1" by (simp add: compile_dfa_def)
      with check_regex_symbols_valid_err[OF Inl] show ?thesis by blast
    next
      case v: (Inr u1)
      from check_regex_symbols_valid_tokens[OF v] have
        tok: "set ?r0 \<subseteq> insert EPS_TOK (set alphabet \<union> set ''|+*()'')" .
      show ?thesis
      proof (cases "check_parentheses_balanced ?r0")
        case (Inl e1)
        with Inr ne v assms have "e = e1" by (simp add: compile_dfa_def)
        with check_parentheses_loop_err[of ?r0 0 e1] Inl show ?thesis
          by (auto simp: check_parentheses_balanced_def)
      next
        case b: (Inr u2)
        let ?r1 = "add_concat_ops alphabet ?r0"
        have tok1: "set ?r1 \<subseteq> insert EPS_TOK (set alphabet \<union> set ''|+*().'')"
          using set_add_concat_ops[of alphabet ?r0] tok by auto
        have st0: "set ([]::string) \<subseteq> set ''(|+.''" by simp
        have out0: "set ([]::string) \<subseteq> insert EPS_TOK (set alphabet \<union> set ''*|+.'')" by simp
        show ?thesis
        proof (cases "to_postfix alphabet ?r1")
          case (Inl e1)
          with Inr ne v b assms have "e = e1" by (simp add: compile_dfa_def)
          with to_postfix_loop_ok[OF tok1 st0 out0, of e1] Inl show ?thesis
            by (simp add: to_postfix_def)
        next
          case p: (Inr post)
          with to_postfix_loop_ok[OF tok1 st0 out0, of _ post] have
            ptok: "set post \<subseteq> insert EPS_TOK (set alphabet \<union> set ''*|+.'')"
            by (simp add: to_postfix_def)
          show ?thesis
          proof (cases "postfix_to_nfa alphabet post")
            case (Inl e1)
            with Inr ne v b p assms have "e = e1" by (simp add: compile_dfa_def)
            with postfix_to_nfa_err[OF ptok Inl] show ?thesis by blast
          next
            case n: (Inr nf)
            obtain nfa fr where nf: "nf = (nfa, fr)" by (cases nf) auto
            show ?thesis
            proof (cases "nfa_to_dfa nfa alphabet (start fr) (accept fr)")
              case (Inl e1)
              with Inr ne v b p n nf assms have "e = e1" by (simp add: compile_dfa_def)
              with nfa_to_dfa_err[OF Inl] show ?thesis by blast
            next
              case d: (Inr dfa)
              with Inr ne v b p n nf assms show ?thesis
                by (simp add: compile_dfa_def split: prod.splits)
            qed
          qed
        qed
      qed
    qed
  qed
qed

lemma parse_alphabet_loop_no_nul:
  "parse_alphabet_loop line acc = Inr alphabet \<Longrightarrow> CHR 0x00 \<notin> set acc \<Longrightarrow>
   CHR 0x00 \<notin> set alphabet"
proof (induction line arbitrary: acc)
  case Nil
  then show ?case by simp
next
  case (Cons c rest)
  show ?case
  proof (cases "(c = CHR 0x0A \<or> c = CHR 0x0D) \<or> (isspace c \<or> c = CHR '','' \<or> c = CHR '';'')")
    case True
    with Cons.prems have "parse_alphabet_loop rest acc = Inr alphabet"
      by (auto split: if_splits)
    from Cons.IH[OF this Cons.prems(2)] show ?thesis .
  next
    case False
    with Cons.prems have r: "parse_alphabet_loop rest (acc @ [c]) = Inr alphabet"
      and "\<not> (of_char c :: nat) < 32"
      by (auto split: if_splits)
    then have "c \<noteq> CHR 0x00" by auto
    with Cons.prems(2) have "CHR 0x00 \<notin> set (acc @ [c])" by simp
    from Cons.IH[OF r this] show ?thesis .
  qed
qed

lemma parse_alphabet_line_no_nul:
  "parse_alphabet_line line = Inr alphabet \<Longrightarrow> CHR 0x00 \<notin> set alphabet"
  using parse_alphabet_loop_no_nul[of line "[]" alphabet]
  by (auto simp: parse_alphabet_line_def split: sum.splits if_splits)

lemma parse_alphabet_line_nonempty:
  "parse_alphabet_line line = Inr alphabet \<Longrightarrow> alphabet \<noteq> []"
  by (auto simp: parse_alphabet_line_def split: sum.splits if_splits)

text \<open>The passes on the pattern that is the single sentinel byte.\<close>

lemma eps_only_front:
  "preprocess_regex [CHR 0x01] = [EPS_TOK]"
  "check_regex_symbols_valid alphabet [EPS_TOK] = Inr ()"
  "check_parentheses_balanced [EPS_TOK] = Inr ()"
  "add_concat_ops alphabet [EPS_TOK] = [EPS_TOK]"
  "to_postfix alphabet [EPS_TOK] = Inr [EPS_TOK]"
proof -
  show "preprocess_regex [CHR 0x01] = [EPS_TOK]" by (simp add: isspace_def EPS_TOK_def)
  show "check_regex_symbols_valid alphabet [EPS_TOK] = Inr ()" by simp
  show "check_parentheses_balanced [EPS_TOK] = Inr ()"
    by (simp add: check_parentheses_balanced_def EPS_TOK_def)
  show "add_concat_ops alphabet [EPS_TOK] = [EPS_TOK]"
    using add_concat_loop_eq[of 0 "[EPS_TOK]" alphabet "[]"] by (simp add: add_concat_ops_def)
  show "to_postfix alphabet [EPS_TOK] = Inr [EPS_TOK]" by (simp add: to_postfix_def)
qed

lemma eps_only_nfa:
  "EPS_TOK \<notin> set alphabet \<Longrightarrow>
   postfix_to_nfa alphabet [EPS_TOK] = Inr ([[Edge 1 (CHR 0x00)], []], Frag 0 1)"
  by (simp add: postfix_to_nfa_def new_two_def new_nfa_state_def MAX_NFA_STATES_def
      add_edge_def is_alphabet_symbol_iff)

lemma eps_only_closure: "eps_closure [[Edge (Suc 0) (CHR 0x00)], []] {0} = {0, Suc 0}"
  by code_simp

lemma eps_only_move:
  "c \<noteq> CHR 0x00 \<Longrightarrow> move_on_symbol [[Edge (Suc 0) (CHR 0x00)], []] {0, Suc 0} c = {}"
  by (simp add: move_on_symbol_def)

lemma replicate_update_same: "(replicate k x)[i := x] = replicate k x"
proof (cases "i < k")
  case True
  then have "(replicate k x)[i := replicate k x ! i] = replicate k x" by (intro list_update_id)
  with True show ?thesis by simp
next
  case False
  then show ?thesis by (intro list_update_beyond) simp
qed

lemma eps_only_sym_loop:
  assumes "\<forall>ai \<in> set ais. alphabet ! ai \<noteq> CHR 0x00"
  shows "dfa_sym_loop [[Edge 1 (CHR 0x00)], []] 1 alphabet 0 ais
           [\<lparr>nset = {0, 1}, is_accept = True, trans = replicate k (- 1)\<rparr>] q
         = Inr ([\<lparr>nset = {0, 1}, is_accept = True, trans = replicate k (- 1)\<rparr>], q)"
  using assms
proof (induction ais)
  case Nil
  then show ?case by simp
next
  case (Cons ai ais)
  then have "move_on_symbol [[Edge (Suc 0) (CHR 0x00)], []] {0, Suc 0} (alphabet ! ai) = {}"
    by (simp add: eps_only_move)
  moreover have "set_trans [\<lparr>nset = {0, 1}, is_accept = True, trans = replicate k (- 1)\<rparr>] 0 ai (- 1)
                 = [\<lparr>nset = {0, 1}, is_accept = True, trans = replicate k (- 1)\<rparr>]"
    by (simp add: set_trans_def replicate_update_same)
  ultimately show ?case using Cons by simp
qed

lemma eps_only_dfa:
  assumes "CHR 0x00 \<notin> set alphabet"
  shows "nfa_to_dfa [[Edge 1 (CHR 0x00)], []] alphabet 0 1
         = Inr [\<lparr>nset = {0, 1}, is_accept = True, trans = replicate (length alphabet) (- 1)\<rparr>]"
proof -
  have "\<forall>ai \<in> set [0..<length alphabet]. alphabet ! ai \<noteq> CHR 0x00"
    using assms by (metis atLeastLessThan_iff nth_mem set_upt)
  from eps_only_sym_loop[OF this, of "length alphabet" "[]"] show ?thesis
    by (simp add: nfa_to_dfa_def eps_only_closure dfa_add_state_def MAX_DFA_STATES_def)
qed


lemma build_acc_fold_keeps:
  "c < length acc \<Longrightarrow> acc ! c \<Longrightarrow>
   fold (\<lambda>s acc. if A ! s then acc[cls ! s := True] else acc) xs acc ! c
   \<and> length (fold (\<lambda>s acc. if A ! s then acc[cls ! s := True] else acc) xs acc) = length acc"
proof (induction xs arbitrary: acc)
  case Nil
  then show ?case by simp
next
  case (Cons x xs)
  let ?a = "if A ! x then acc[cls ! x := True] else acc"
  have "c < length ?a" "?a ! c" using Cons.prems by (cases "cls ! x = c"; simp)+
  from Cons.IH[OF this] show ?case by simp
qed

lemma build_acc_fold_length:
  "length (fold (\<lambda>s acc. if A ! s then acc[cls ! s := True] else acc) xs acc) = length acc"
  by (induction xs arbitrary: acc) auto

lemma build_acc_true:
  assumes "s < N" "A ! s" "cls ! s < min_n"
  shows "build_acc N min_n cls A ! (cls ! s)"
proof -
  let ?f = "\<lambda>s acc. if A ! s then acc[cls ! s := True] else acc"
  let ?a1 = "fold ?f [0..<s] (replicate min_n False)"
  have split: "[0..<N] = [0..<s] @ s # [Suc s..<N]"
    using assms(1) by (metis le0 upt_add_eq_append upt_conv_Cons le_add_diff_inverse less_imp_le_nat)
  have l1: "length ?a1 = min_n" by (simp add: build_acc_fold_length)
  have "?f s ?a1 = ?a1[cls ! s := True]" using assms(2) by simp
  then have "cls ! s < length (?f s ?a1)" "?f s ?a1 ! (cls ! s)"
    using l1 assms(3) by simp_all
  from build_acc_fold_keeps[OF this, of A cls "[Suc s..<N]"]
  show ?thesis unfolding build_acc_def split by simp
qed

lemma eps_only_compile:
  assumes "parse_alphabet_line line_alpha = Inr alphabet"
  shows "\<exists>d. compile_dfa [CHR 0x01] line_alpha = Inr d \<and> f_start d \<in> set (f_accept d)"
proof -
  let ?k = "length alphabet"
  let ?dfa = "[\<lparr>nset = {0, 1}, is_accept = True, trans = replicate ?k (- 1)\<rparr>]"
  obtain cls min_n where m: "dfa_minimize ?k ?dfa = (cls, min_n)"
    by (cases "dfa_minimize ?k ?dfa") auto
  have n: "postfix_to_nfa alphabet [EPS_TOK] = Inr ([[Edge 1 (CHR 0x00)], []], Frag 0 1)"
    by (rule eps_only_nfa[OF parse_alphabet_line_no_eps[OF assms]])
  have d: "nfa_to_dfa [[Edge 1 (CHR 0x00)], []] alphabet 0 1 = Inr ?dfa"
    by (rule eps_only_dfa[OF parse_alphabet_line_no_nul[OF assms]])
  have c: "compile_dfa [CHR 0x01] line_alpha = Inr (write_min_dfa alphabet ?dfa cls min_n)"
    unfolding compile_dfa_def
    by (simp only: assms eps_only_front n d m sum.case prod.case Let_def frag.sel
        list.distinct if_False)
  have N: "0 < num_states ?k ?dfa" by (simp add: num_states_def)
  from dfa_minimize_ok[OF N m] have ok: "cls_ok (num_states ?k ?dfa) cls min_n" .
  with N have c0: "cls ! 0 < min_n" by (simp add: cls_ok_def)
  have "build_A ?k ?dfa ! 0" by (simp add: build_A_def)
  from build_acc_true[OF N this c0] c0
  have "f_start (write_min_dfa alphabet ?dfa cls min_n)
        \<in> set (f_accept (write_min_dfa alphabet ?dfa cls min_n))"
    by (simp add: write_min_dfa_def Let_def)
  with c show ?thesis by blast
qed


section \<open>Concrete runs of the compiler\<close>

text \<open>
  Each run is evaluated pass by pass: alphabet, preprocessing, validation, postfix,
  Thompson construction, subset construction, minimization, writer.
\<close>

subsection \<open>Run \<open>raw_eps\<close>\<close>

lemma raw_eps_alphabet: "parse_alphabet_line ''a'' = Inr ''a''"
  by code_simp

lemma raw_eps_preprocess: "preprocess_regex [CHR 0x01] = [CHR 0x01]"
  by code_simp

lemma raw_eps_valid:
  "check_regex_symbols_valid ''a'' [CHR 0x01] = Inr ()"
  "check_parentheses_balanced [CHR 0x01] = Inr ()"
  by code_simp+

lemma raw_eps_postfix:
  "to_postfix ''a'' (add_concat_ops ''a'' [CHR 0x01]) = Inr [CHR 0x01]"
  by code_simp

lemma raw_eps_nfa:
  "postfix_to_nfa ''a'' [CHR 0x01] =
   Inr ([[Edge 1 (CHR 0x00)],
      []],
     Frag 0 1)"
  by code_simp

lemma raw_eps_dfa:
  "nfa_to_dfa
     [[Edge 1 (CHR 0x00)],
      []]
     ''a'' 0 1 =
   Inr [\<lparr>nset = {0, 1}, is_accept = True, trans = [- 1]\<rparr>]"
  by code_simp

lemma raw_eps_minimize:
  "dfa_minimize (length ''a'')
     [\<lparr>nset = {0, 1}, is_accept = True, trans = [- 1]\<rparr>] =
   ([0, 1], 2)"
  by code_simp

lemma raw_eps_write:
  "write_min_dfa ''a''
     [\<lparr>nset = {0, 1}, is_accept = True, trans = [- 1]\<rparr>]
     [0, 1] 2 =
   \<lparr>f_alphabet = ''a'', f_states = 2, f_start = 0, f_accept = [0],
       f_trans = [[1], [1]]\<rparr>"
  by code_simp

lemma raw_eps_compile:
  "compile_dfa [CHR 0x01] ''a'' =
   Inr \<lparr>f_alphabet = ''a'', f_states = 2, f_start = 0, f_accept = [0],
       f_trans = [[1], [1]]\<rparr>"
  unfolding compile_dfa_def
  by (simp only: raw_eps_alphabet raw_eps_preprocess raw_eps_valid raw_eps_postfix raw_eps_nfa
      raw_eps_dfa raw_eps_minimize raw_eps_write sum.case prod.case Let_def frag.sel list.distinct
      if_False)

subsection \<open>Run \<open>a_or_b\<close>\<close>

lemma a_or_b_alphabet: "parse_alphabet_line ''ab'' = Inr ''ab''"
  by code_simp

lemma a_or_b_preprocess: "preprocess_regex ''a|b'' = ''a|b''"
  by code_simp

lemma a_or_b_valid:
  "check_regex_symbols_valid ''ab'' ''a|b'' = Inr ()"
  "check_parentheses_balanced ''a|b'' = Inr ()"
  by code_simp+

lemma a_or_b_postfix:
  "to_postfix ''ab'' (add_concat_ops ''ab'' ''a|b'') = Inr ''ab|''"
  by code_simp

lemma a_or_b_nfa:
  "postfix_to_nfa ''ab'' ''ab|'' =
   Inr ([[Edge 1 (CHR ''a'')],
      [Edge 5 (CHR 0x00)],
      [Edge 3 (CHR ''b'')],
      [Edge 5 (CHR 0x00)],
      [Edge 0 (CHR 0x00), Edge 2 (CHR 0x00)],
      []],
     Frag 4 5)"
  by code_simp

lemma a_or_b_dfa:
  "nfa_to_dfa
     [[Edge 1 (CHR ''a'')],
      [Edge 5 (CHR 0x00)],
      [Edge 3 (CHR ''b'')],
      [Edge 5 (CHR 0x00)],
      [Edge 0 (CHR 0x00), Edge 2 (CHR 0x00)],
      []]
     ''ab'' 4 5 =
   Inr [\<lparr>nset = {0, 2, 4}, is_accept = False, trans = [1, 2]\<rparr>,
      \<lparr>nset = {1, 5}, is_accept = True, trans = [- 1, - 1]\<rparr>,
      \<lparr>nset = {3, 5}, is_accept = True, trans = [- 1, - 1]\<rparr>]"
  by code_simp

lemma a_or_b_minimize:
  "dfa_minimize (length ''ab'')
     [\<lparr>nset = {0, 2, 4}, is_accept = False, trans = [1, 2]\<rparr>,
      \<lparr>nset = {1, 5}, is_accept = True, trans = [- 1, - 1]\<rparr>,
      \<lparr>nset = {3, 5}, is_accept = True, trans = [- 1, - 1]\<rparr>] =
   ([1, 0, 0, 2], 3)"
  by code_simp

lemma a_or_b_write:
  "write_min_dfa ''ab''
     [\<lparr>nset = {0, 2, 4}, is_accept = False, trans = [1, 2]\<rparr>,
      \<lparr>nset = {1, 5}, is_accept = True, trans = [- 1, - 1]\<rparr>,
      \<lparr>nset = {3, 5}, is_accept = True, trans = [- 1, - 1]\<rparr>]
     [1, 0, 0, 2] 3 =
   \<lparr>f_alphabet = ''ab'', f_states = 3, f_start = 1, f_accept = [0],
       f_trans = [[2, 2], [0, 0], [2, 2]]\<rparr>"
  by code_simp

lemma a_or_b_compile:
  "compile_dfa ''a|b'' ''ab'' =
   Inr \<lparr>f_alphabet = ''ab'', f_states = 3, f_start = 1, f_accept = [0],
       f_trans = [[2, 2], [0, 0], [2, 2]]\<rparr>"
  unfolding compile_dfa_def
  by (simp only: a_or_b_alphabet a_or_b_preprocess a_or_b_valid a_or_b_postfix a_or_b_nfa
      a_or_b_dfa a_or_b_minimize a_or_b_write sum.case prod.case Let_def frag.sel list.distinct
      if_False)

subsection \<open>Run \<open>a_star\<close>\<close>

lemma a_star_alphabet: "parse_alphabet_line ''a'' = Inr ''a''"
  by code_simp

lemma a_star_preprocess: "preprocess_regex ''a*'' = ''a*''"
  by code_simp

lemma a_star_valid:
  "check_regex_symbols_valid ''a'' ''a*'' = Inr ()"
  "check_parentheses_balanced ''a*'' = Inr ()"
  by code_simp+

lemma a_star_postfix:
  "to_postfix ''a'' (add_concat_ops ''a'' ''a*'') = Inr ''a*''"
  by code_simp

lemma a_star_nfa:
  "postfix_to_nfa ''a'' ''a*'' =
   Inr ([[Edge 1 (CHR ''a'')],
      [Edge 0 (CHR 0x00), Edge 3 (CHR 0x00)],
      [Edge 0 (CHR 0x00), Edge 3 (CHR 0x00)],
      []],
     Frag 2 3)"
  by code_simp

lemma a_star_dfa:
  "nfa_to_dfa
     [[Edge 1 (CHR ''a'')],
      [Edge 0 (CHR 0x00), Edge 3 (CHR 0x00)],
      [Edge 0 (CHR 0x00), Edge 3 (CHR 0x00)],
      []]
     ''a'' 2 3 =
   Inr [\<lparr>nset = {0, 2, 3}, is_accept = True, trans = [1]\<rparr>,
      \<lparr>nset = {0, 1, 3}, is_accept = True, trans = [1]\<rparr>]"
  by code_simp

lemma a_star_minimize:
  "dfa_minimize (length ''a'')
     [\<lparr>nset = {0, 2, 3}, is_accept = True, trans = [1]\<rparr>,
      \<lparr>nset = {0, 1, 3}, is_accept = True, trans = [1]\<rparr>] =
   ([0, 0], 1)"
  by code_simp

lemma a_star_write:
  "write_min_dfa ''a''
     [\<lparr>nset = {0, 2, 3}, is_accept = True, trans = [1]\<rparr>,
      \<lparr>nset = {0, 1, 3}, is_accept = True, trans = [1]\<rparr>]
     [0, 0] 1 =
   \<lparr>f_alphabet = ''a'', f_states = 1, f_start = 0, f_accept = [0],
       f_trans = [[0]]\<rparr>"
  by code_simp

lemma a_star_compile:
  "compile_dfa ''a*'' ''a'' =
   Inr \<lparr>f_alphabet = ''a'', f_states = 1, f_start = 0, f_accept = [0],
       f_trans = [[0]]\<rparr>"
  unfolding compile_dfa_def
  by (simp only: a_star_alphabet a_star_preprocess a_star_valid a_star_postfix a_star_nfa
      a_star_dfa a_star_minimize a_star_write sum.case prod.case Let_def frag.sel list.distinct
      if_False)

subsection \<open>Run \<open>a_star_nl\<close>\<close>

lemma a_star_nl_alphabet: "parse_alphabet_line [CHR ''a'', CHR 0x0A] = Inr ''a''"
  by code_simp

lemma a_star_nl_preprocess: "preprocess_regex [CHR ''a'', CHR ''*'', CHR 0x0A] = ''a*''"
  by code_simp

lemma a_star_nl_valid:
  "check_regex_symbols_valid ''a'' ''a*'' = Inr ()"
  "check_parentheses_balanced ''a*'' = Inr ()"
  by code_simp+

lemma a_star_nl_postfix:
  "to_postfix ''a'' (add_concat_ops ''a'' ''a*'') = Inr ''a*''"
  by code_simp

lemma a_star_nl_nfa:
  "postfix_to_nfa ''a'' ''a*'' =
   Inr ([[Edge 1 (CHR ''a'')],
      [Edge 0 (CHR 0x00), Edge 3 (CHR 0x00)],
      [Edge 0 (CHR 0x00), Edge 3 (CHR 0x00)],
      []],
     Frag 2 3)"
  by code_simp

lemma a_star_nl_dfa:
  "nfa_to_dfa
     [[Edge 1 (CHR ''a'')],
      [Edge 0 (CHR 0x00), Edge 3 (CHR 0x00)],
      [Edge 0 (CHR 0x00), Edge 3 (CHR 0x00)],
      []]
     ''a'' 2 3 =
   Inr [\<lparr>nset = {0, 2, 3}, is_accept = True, trans = [1]\<rparr>,
      \<lparr>nset = {0, 1, 3}, is_accept = True, trans = [1]\<rparr>]"
  by code_simp

lemma a_star_nl_minimize:
  "dfa_minimize (length ''a'')
     [\<lparr>nset = {0, 2, 3}, is_accept = True, trans = [1]\<rparr>,
      \<lparr>nset = {0, 1, 3}, is_accept = True, trans = [1]\<rparr>] =
   ([0, 0], 1)"
  by code_simp

lemma a_star_nl_write:
  "write_min_dfa ''a''
     [\<lparr>nset = {0, 2, 3}, is_accept = True, trans = [1]\<rparr>,
      \<lparr>nset = {0, 1, 3}, is_accept = True, trans = [1]\<rparr>]
     [0, 0] 1 =
   \<lparr>f_alphabet = ''a'', f_states = 1, f_start = 0, f_accept = [0],
       f_trans = [[0]]\<rparr>"
  by code_simp

lemma a_star_nl_compile:
  "compile_dfa [CHR ''a'', CHR ''*'', CHR 0x0A] [CHR ''a'', CHR 0x0A] =
   Inr \<lparr>f_alphabet = ''a'', f_states = 1, f_start = 0, f_accept = [0],
       f_trans = [[0]]\<rparr>"
  unfolding compile_dfa_def
  by (simp only: a_star_nl_alphabet a_star_nl_preprocess a_star_nl_valid a_star_nl_postfix a_star_nl_nfa
      a_star_nl_dfa a_star_nl_minimize a_star_nl_write sum.case prod.case Let_def frag.sel list.distinct
      if_False)

subsection \<open>Run \<open>punct\<close>\<close>

lemma punct_alphabet: "parse_alphabet_line '':->{}'' = Inr '':->{}''"
  by code_simp

lemma punct_preprocess: "preprocess_regex '':'' = '':''"
  by code_simp

lemma punct_valid:
  "check_regex_symbols_valid '':->{}'' '':'' = Inr ()"
  "check_parentheses_balanced '':'' = Inr ()"
  by code_simp+

lemma punct_postfix:
  "to_postfix '':->{}'' (add_concat_ops '':->{}'' '':'') = Inr '':''"
  by code_simp

lemma punct_nfa:
  "postfix_to_nfa '':->{}'' '':'' =
   Inr ([[Edge 1 (CHR '':'')],
      []],
     Frag 0 1)"
  by code_simp

lemma punct_dfa:
  "nfa_to_dfa
     [[Edge 1 (CHR '':'')],
      []]
     '':->{}'' 0 1 =
   Inr [\<lparr>nset = {0}, is_accept = False, trans = [1, - 1, - 1, - 1, - 1]\<rparr>,
      \<lparr>nset = {1}, is_accept = True, trans = [- 1, - 1, - 1, - 1, - 1]\<rparr>]"
  by code_simp

lemma punct_minimize:
  "dfa_minimize (length '':->{}'')
     [\<lparr>nset = {0}, is_accept = False, trans = [1, - 1, - 1, - 1, - 1]\<rparr>,
      \<lparr>nset = {1}, is_accept = True, trans = [- 1, - 1, - 1, - 1, - 1]\<rparr>] =
   ([1, 0, 2], 3)"
  by code_simp

lemma punct_write:
  "write_min_dfa '':->{}''
     [\<lparr>nset = {0}, is_accept = False, trans = [1, - 1, - 1, - 1, - 1]\<rparr>,
      \<lparr>nset = {1}, is_accept = True, trans = [- 1, - 1, - 1, - 1, - 1]\<rparr>]
     [1, 0, 2] 3 =
   \<lparr>f_alphabet = '':->{}'', f_states = 3, f_start = 1, f_accept = [0],
       f_trans = [[2, 2, 2, 2, 2], [0, 2, 2, 2, 2], [2, 2, 2, 2, 2]]\<rparr>"
  by code_simp

lemma punct_compile:
  "compile_dfa '':'' '':->{}'' =
   Inr \<lparr>f_alphabet = '':->{}'', f_states = 3, f_start = 1, f_accept = [0],
       f_trans = [[2, 2, 2, 2, 2], [0, 2, 2, 2, 2], [2, 2, 2, 2, 2]]\<rparr>"
  unfolding compile_dfa_def
  by (simp only: punct_alphabet punct_preprocess punct_valid punct_postfix punct_nfa
      punct_dfa punct_minimize punct_write sum.case prod.case Let_def frag.sel list.distinct
      if_False)

subsection \<open>Run \<open>latin1\<close>\<close>

lemma latin1_alphabet: "parse_alphabet_line [CHR 0xE9] = Inr [CHR 0xE9]"
  by code_simp

lemma latin1_preprocess: "preprocess_regex [CHR 0xE9] = [CHR 0xE9]"
  by code_simp

lemma latin1_valid:
  "check_regex_symbols_valid [CHR 0xE9] [CHR 0xE9] = Inr ()"
  "check_parentheses_balanced [CHR 0xE9] = Inr ()"
  by code_simp+

lemma latin1_postfix:
  "to_postfix [CHR 0xE9] (add_concat_ops [CHR 0xE9] [CHR 0xE9]) = Inr [CHR 0xE9]"
  by code_simp

lemma latin1_nfa:
  "postfix_to_nfa [CHR 0xE9] [CHR 0xE9] =
   Inr ([[Edge 1 (CHR 0xE9)],
      []],
     Frag 0 1)"
  by code_simp

lemma latin1_dfa:
  "nfa_to_dfa
     [[Edge 1 (CHR 0xE9)],
      []]
     [CHR 0xE9] 0 1 =
   Inr [\<lparr>nset = {0}, is_accept = False, trans = [1]\<rparr>,
      \<lparr>nset = {1}, is_accept = True, trans = [- 1]\<rparr>]"
  by code_simp

lemma latin1_minimize:
  "dfa_minimize (length [CHR 0xE9])
     [\<lparr>nset = {0}, is_accept = False, trans = [1]\<rparr>,
      \<lparr>nset = {1}, is_accept = True, trans = [- 1]\<rparr>] =
   ([1, 0, 2], 3)"
  by code_simp

lemma latin1_write:
  "write_min_dfa [CHR 0xE9]
     [\<lparr>nset = {0}, is_accept = False, trans = [1]\<rparr>,
      \<lparr>nset = {1}, is_accept = True, trans = [- 1]\<rparr>]
     [1, 0, 2] 3 =
   \<lparr>f_alphabet = [CHR 0xE9], f_states = 3, f_start = 1, f_accept = [0],
       f_trans = [[2], [0], [2]]\<rparr>"
  by code_simp

lemma latin1_compile:
  "compile_dfa [CHR 0xE9] [CHR 0xE9] =
   Inr \<lparr>f_alphabet = [CHR 0xE9], f_states = 3, f_start = 1, f_accept = [0],
       f_trans = [[2], [0], [2]]\<rparr>"
  unfolding compile_dfa_def
  by (simp only: latin1_alphabet latin1_preprocess latin1_valid latin1_postfix latin1_nfa
      latin1_dfa latin1_minimize latin1_write sum.case prod.case Let_def frag.sel list.distinct
      if_False)

subsection \<open>Run \<open>unreach\<close>\<close>

lemma unreach_alphabet: "parse_alphabet_line ''ab'' = Inr ''ab''"
  by code_simp

lemma unreach_preprocess: "preprocess_regex ''a*a|bab'' = ''a*a|bab''"
  by code_simp

lemma unreach_valid:
  "check_regex_symbols_valid ''ab'' ''a*a|bab'' = Inr ()"
  "check_parentheses_balanced ''a*a|bab'' = Inr ()"
  by code_simp+

lemma unreach_postfix:
  "to_postfix ''ab'' (add_concat_ops ''ab'' ''a*a|bab'') = Inr ''a*a.ba.b.|''"
  by code_simp

lemma unreach_nfa:
  "postfix_to_nfa ''ab'' ''a*a.ba.b.|'' =
   Inr ([[Edge 1 (CHR ''a'')],
      [Edge 0 (CHR 0x00), Edge 3 (CHR 0x00)],
      [Edge 0 (CHR 0x00), Edge 3 (CHR 0x00)],
      [Edge 4 (CHR 0x00)],
      [Edge 5 (CHR ''a'')],
      [Edge 13 (CHR 0x00)],
      [Edge 7 (CHR ''b'')],
      [Edge 8 (CHR 0x00)],
      [Edge 9 (CHR ''a'')],
      [Edge 10 (CHR 0x00)],
      [Edge 11 (CHR ''b'')],
      [Edge 13 (CHR 0x00)],
      [Edge 2 (CHR 0x00), Edge 6 (CHR 0x00)],
      []],
     Frag 12 13)"
  by code_simp

lemma unreach_dfa:
  "nfa_to_dfa
     [[Edge 1 (CHR ''a'')],
      [Edge 0 (CHR 0x00), Edge 3 (CHR 0x00)],
      [Edge 0 (CHR 0x00), Edge 3 (CHR 0x00)],
      [Edge 4 (CHR 0x00)],
      [Edge 5 (CHR ''a'')],
      [Edge 13 (CHR 0x00)],
      [Edge 7 (CHR ''b'')],
      [Edge 8 (CHR 0x00)],
      [Edge 9 (CHR ''a'')],
      [Edge 10 (CHR 0x00)],
      [Edge 11 (CHR ''b'')],
      [Edge 13 (CHR 0x00)],
      [Edge 2 (CHR 0x00), Edge 6 (CHR 0x00)],
      []]
     ''ab'' 12 13 =
   Inr [\<lparr>nset = {0, 2, 3, 4, 6, 12}, is_accept = False, trans = [1, 2]\<rparr>,
      \<lparr>nset = {0, 1, 3, 4, 5, 13}, is_accept = True, trans = [1, - 1]\<rparr>,
      \<lparr>nset = {7, 8}, is_accept = False, trans = [3, - 1]\<rparr>,
      \<lparr>nset = {9, 10}, is_accept = False, trans = [- 1, 4]\<rparr>,
      \<lparr>nset = {11, 13}, is_accept = True, trans = [- 1, - 1]\<rparr>]"
  by code_simp

lemma unreach_minimize:
  "dfa_minimize (length ''ab'')
     [\<lparr>nset = {0, 2, 3, 4, 6, 12}, is_accept = False, trans = [1, 2]\<rparr>,
      \<lparr>nset = {0, 1, 3, 4, 5, 13}, is_accept = True, trans = [1, - 1]\<rparr>,
      \<lparr>nset = {7, 8}, is_accept = False, trans = [3, - 1]\<rparr>,
      \<lparr>nset = {9, 10}, is_accept = False, trans = [- 1, 4]\<rparr>,
      \<lparr>nset = {11, 13}, is_accept = True, trans = [- 1, - 1]\<rparr>] =
   ([1, 0, 3, 3, 2, 3], 4)"
  by code_simp

lemma unreach_write:
  "write_min_dfa ''ab''
     [\<lparr>nset = {0, 2, 3, 4, 6, 12}, is_accept = False, trans = [1, 2]\<rparr>,
      \<lparr>nset = {0, 1, 3, 4, 5, 13}, is_accept = True, trans = [1, - 1]\<rparr>,
      \<lparr>nset = {7, 8}, is_accept = False, trans = [3, - 1]\<rparr>,
      \<lparr>nset = {9, 10}, is_accept = False, trans = [- 1, 4]\<rparr>,
      \<lparr>nset = {11, 13}, is_accept = True, trans = [- 1, - 1]\<rparr>]
     [1, 0, 3, 3, 2, 3] 4 =
   \<lparr>f_alphabet = ''ab'', f_states = 4, f_start = 1, f_accept = [0, 2],
       f_trans = [[0, 3], [0, 3], [3, 3], [3, 3]]\<rparr>"
  by code_simp

lemma unreach_compile:
  "compile_dfa ''a*a|bab'' ''ab'' =
   Inr \<lparr>f_alphabet = ''ab'', f_states = 4, f_start = 1, f_accept = [0, 2],
       f_trans = [[0, 3], [0, 3], [3, 3], [3, 3]]\<rparr>"
  unfolding compile_dfa_def
  by (simp only: unreach_alphabet unreach_preprocess unreach_valid unreach_postfix unreach_nfa
      unreach_dfa unreach_minimize unreach_write sum.case prod.case Let_def frag.sel list.distinct
      if_False)


section \<open>The claims\<close>

lemma a_or_b_render:
  "render_dfa \<lparr>f_alphabet = ''ab'', f_states = 3, f_start = 1, f_accept = [0],
       f_trans = [[2, 2], [0, 0], [2, 2]]\<rparr> =
   ''ALPHABET 2 ab\<newline>STATES 3\<newline>START 1\<newline>ACCEPT 1 0\<newline>TRANS\<newline>2 2\<newline>0 0\<newline>2 2\<newline>END\<newline>''"
  by code_simp

lemma a_star_render:
  "render_dfa \<lparr>f_alphabet = ''a'', f_states = 1, f_start = 0, f_accept = [0],
       f_trans = [[0]]\<rparr> =
   ''ALPHABET 1 a\<newline>STATES 1\<newline>START 0\<newline>ACCEPT 1 0\<newline>TRANS\<newline>0\<newline>END\<newline>''"
  by code_simp

text \<open>
  C1, as corrected. Compiling the pattern \<open>a|b\<close> over the alphabet \<open>{a,b}\<close> emits a minimized
  DFA with exactly 3 states: state 0 is the accepting state reached after \<open>a\<close> and after
  \<open>b\<close> (the minimizer merges the two), state 1 is the start state and state 2 is the dead
  state; exactly one state is accepting.
\<close>

theorem C1_a_or_b_three_states:
  "compile_dfa ''a|b'' ''ab'' =
     Inr \<lparr>f_alphabet = ''ab'', f_states = 3, f_start = 1, f_accept = [0],
       f_trans = [[2, 2], [0, 0], [2, 2]]\<rparr>
   \<and> compiler_main ''a|b'' ''ab'' =
     Inr ''ALPHABET 2 ab\<newline>STATES 3\<newline>START 1\<newline>ACCEPT 1 0\<newline>TRANS\<newline>2 2\<newline>0 0\<newline>2 2\<newline>END\<newline>''"
  by (simp only: compiler_main_def a_or_b_compile a_or_b_render map_sum.simps simp_thms)

text \<open>
  C1 as stated fails: the DFA emitted for \<open>a|b\<close> over \<open>{a,b}\<close> does not have 4 states of
  which two are accepting.
\<close>

theorem C1_counterexample:
  "\<not> (\<exists>d. compile_dfa ''a|b'' ''ab'' = Inr d \<and> f_states d = 4 \<and> length (f_accept d) = 2)"
  by (auto simp: a_or_b_compile)

text \<open>
  C2. For every pattern and alphabet the compiler accepts, the emitted DFA is total: the
  transition section has exactly \<open>n\<close> rows of \<open>k\<close> entries each, and every transition
  target, the start state and every id of the accept list are below \<open>n\<close>.
\<close>

theorem C2_emitted_dfa_total:
  assumes "compile_dfa line_regex line_alpha = Inr d"
  shows "length (f_trans d) = f_states d
         \<and> (\<forall>row \<in> set (f_trans d).
               length row = length (f_alphabet d) \<and> (\<forall>t \<in> set row. t < f_states d))
         \<and> f_start d < f_states d
         \<and> (\<forall>i \<in> set (f_accept d). i < f_states d)"
proof -
  from assms obtain alphabet nfa s acc dfa cls min_n where
    n: "nfa_to_dfa nfa alphabet s acc = Inr dfa" and
    m: "dfa_minimize (length alphabet) dfa = (cls, min_n)" and
    d: "d = write_min_dfa alphabet dfa cls min_n"
    by (rule compile_dfa_InrD)
  from nfa_to_dfa_ok[OF n] have ok: "dfa_ok (length alphabet) dfa" and ne: "dfa \<noteq> []" by auto
  from ne have "0 < num_states (length alphabet) dfa" by (simp add: num_states_def)
  from dfa_minimize_ok[OF this m] have "cls_ok (num_states (length alphabet) dfa) cls min_n" .
  from write_min_dfa_ok[OF ok ne this] show ?thesis unfolding d file_ok_def .
qed

theorem C2_witness:
  "compile_dfa ''a|b'' ''ab'' = Inr \<lparr>f_alphabet = ''ab'', f_states = 3, f_start = 1, f_accept = [0],
       f_trans = [[2, 2], [0, 0], [2, 2]]\<rparr>
   \<and> length (f_trans \<lparr>f_alphabet = ''ab'', f_states = 3, f_start = 1, f_accept = [0],
       f_trans = [[2, 2], [0, 0], [2, 2]]\<rparr>) = 3
   \<and> f_start \<lparr>f_alphabet = ''ab'', f_states = 3, f_start = 1, f_accept = [0],
       f_trans = [[2, 2], [0, 0], [2, 2]]\<rparr> < 3
   \<and> list_all (\<lambda>row. length row = 2 \<and> list_all (\<lambda>t. t < 3) row)
        (f_trans \<lparr>f_alphabet = ''ab'', f_states = 3, f_start = 1, f_accept = [0],
       f_trans = [[2, 2], [0, 0], [2, 2]]\<rparr>)"
  using C2_emitted_dfa_total[OF a_or_b_compile] a_or_b_compile by simp

text \<open>
  C3. Compiling the pattern \<open>a*\<close> with the one-symbol alphabet \<open>a\<close> gives a DFA of one state,
  accepting, with a self-loop on \<open>a\<close>; the file written is exactly
  \<open>ALPHABET 1 a\<close>, \<open>STATES 1\<close>, \<open>START 0\<close>, \<open>ACCEPT 1 0\<close>, \<open>TRANS\<close>, the row \<open>0\<close>, \<open>END\<close>
  (also when both input lines end with a newline).
\<close>

theorem C3_a_star_output:
  "compile_dfa ''a*'' ''a'' =
     Inr \<lparr>f_alphabet = ''a'', f_states = 1, f_start = 0, f_accept = [0],
       f_trans = [[0]]\<rparr>
   \<and> compiler_main ''a*'' ''a'' =
     Inr ''ALPHABET 1 a\<newline>STATES 1\<newline>START 0\<newline>ACCEPT 1 0\<newline>TRANS\<newline>0\<newline>END\<newline>''
   \<and> compiler_main [CHR ''a'', CHR ''*'', CHR 0x0A] [CHR ''a'', CHR 0x0A] =
     Inr ''ALPHABET 1 a\<newline>STATES 1\<newline>START 0\<newline>ACCEPT 1 0\<newline>TRANS\<newline>0\<newline>END\<newline>''"
  by (simp only: compiler_main_def a_star_compile a_star_nl_compile a_star_render map_sum.simps
      simp_thms)

text \<open>
  C4, as corrected. During the refinement, when a block \<open>Y\<close> at index \<open>yi\<close> that is not on the
  worklist is split into \<open>Y1\<close> (the marked members, keeping index \<open>yi\<close>) and \<open>Y2\<close> (the
  others, at the new index), the index pushed on the worklist is the one of the block with
  fewer members, and when the sizes are equal it is \<open>yi\<close>, the index of \<open>Y1\<close>.
\<close>

theorem C4_smaller_block_pushed_ties_keep_index:
  assumes "yi < length P" "yi \<notin> set W"
    and "block_count mark (P ! yi) \<noteq> 0" "block_count mark (P ! yi) \<noteq> length (P ! yi)"
  shows "yi_loop mark yi (P, cls, W) =
           yi_loop mark (yi + 1)
             (P[yi := filter (\<lambda>s. mark ! s) (P ! yi)] @ [filter (\<lambda>s. \<not> mark ! s) (P ! yi)],
              assign_cls (assign_cls cls (filter (\<lambda>s. mark ! s) (P ! yi)) yi)
                (filter (\<lambda>s. \<not> mark ! s) (P ! yi)) (length P),
              W @ [if length (filter (\<lambda>s. mark ! s) (P ! yi))
                      \<le> length (filter (\<lambda>s. \<not> mark ! s) (P ! yi))
                   then yi else length P])"
proof -
  let ?Y1 = "filter (\<lambda>s. mark ! s) (P ! yi)"
  let ?Y2 = "filter (\<lambda>s. \<not> mark ! s) (P ! yi)"
  have Pyi: "(P[yi := ?Y1] @ [?Y2]) ! yi = ?Y1" using assms(1) by (simp add: nth_append)
  have Pnew: "(P[yi := ?Y1] @ [?Y2]) ! length P = ?Y2" by (simp add: nth_append)
  have "split_block mark yi (P, cls, W) =
          (P[yi := ?Y1] @ [?Y2], assign_cls (assign_cls cls ?Y1 yi) ?Y2 (length P),
           W @ [if length ?Y1 \<le> length ?Y2 then yi else length P])"
    using assms(2)
    by (simp add: split_block_def Let_def Pyi Pnew push_after_split_def del: nth_append_length)
  then show ?thesis
    using assms(1,3,4) by (subst yi_loop.simps) (simp add: Let_def del: yi_loop.simps)
qed

theorem C4_witness:
  "(1::nat) < length [[1, 2], [0, 3::nat]] \<and> (1::nat) \<notin> set []
   \<and> block_count [True, False, False, False] ([[1, 2], [0, 3]] ! 1) \<noteq> 0
   \<and> block_count [True, False, False, False] ([[1, 2], [0, 3]] ! 1) \<noteq> length ([[1, 2], [0, 3::nat]] ! 1)
   \<and> yi_loop [True, False, False, False] 1 ([[1, 2], [0, 3]], [1, 0, 0, 1], [])
       = yi_loop [True, False, False, False] 2 ([[1, 2], [0], [3]], [1, 0, 0, 2], [1])"
proof -
  have h1: "(1::nat) < length [[1, 2], [0, 3::nat]]" by simp
  have h2: "(1::nat) \<notin> set []" by simp
  have h3: "block_count [True, False, False, False] ([[1, 2], [0, 3]] ! 1) \<noteq> 0"
    by (simp add: block_count_def)
  have h4: "block_count [True, False, False, False] ([[1, 2], [0, 3]] ! 1)
            \<noteq> length ([[1, 2], [0, 3::nat]] ! 1)"
    by (simp add: block_count_def)
  have "yi_loop [True, False, False, False] 1 ([[1, 2], [0, 3]], [1, 0, 0, 1], [])
       = yi_loop [True, False, False, False] 2 ([[1, 2], [0], [3]], [1, 0, 0, 2], [1])"
    using C4_smaller_block_pushed_ties_keep_index[OF h1 h2 h3 h4, of "[1, 0, 0, 1]"]
    by (simp add: assign_cls_def numeral_2_eq_2 del: yi_loop.simps)
  with h1 h2 h3 h4 show ?thesis by blast
qed

text \<open>
  C4 as stated fails on a tie: in the run on \<open>a|b\<close>, the block \<open>[0, 3]\<close> at index 1 is split
  into \<open>[0]\<close> and \<open>[3]\<close>, of equal size, and the index pushed is 1 (the block that keeps
  the index), not the new index 2.
\<close>

theorem C4_counterexample:
  "split_block [True, False, False, False] 1 ([[1, 2], [0, 3]], [1, 0, 0, 1], [])
     = ([[1, 2], [0], [3]], [1, 0, 0, 2], [1])
   \<and> length [0::nat] = length [3::nat] \<and> [1::nat] \<noteq> [2]"
  by code_simp

text \<open>
  C5, as corrected. For every alphabet line that contains one of the characters
  \<open>| + * ( ) .\<close> the compiler fails with a BadAlphabet error. (The characters \<open>, ;\<close> are
  separators and never symbols; \<open>: - > { }\<close> are accepted as symbols.)
\<close>

theorem C5_meta_symbol_rejected:
  "c \<in> set line_alpha \<Longrightarrow> c \<in> set ''|+*().'' \<Longrightarrow>
   \<exists>r. compile_dfa line_regex line_alpha = Inl (BadAlphabet r)
     \<and> compiler_main line_regex line_alpha = Inl (BadAlphabet r)"
proof -
  assume c: "c \<in> set line_alpha" and m: "c \<in> set ''|+*().''"
  from m have "is_meta c" by (auto simp: is_meta_def)
  from parse_alphabet_line_meta[OF c this] obtain r where
    "parse_alphabet_line line_alpha = Inl (BadAlphabet r)" by blast
  then have "compile_dfa line_regex line_alpha = Inl (BadAlphabet r)"
    by (rule compile_dfa_bad_alphabet)
  then show ?thesis using compiler_main_Inl by blast
qed

theorem C5_witness:
  "CHR ''*'' \<in> set ''a*'' \<and> CHR ''*'' \<in> set ''|+*().''
   \<and> (\<exists>r. compile_dfa ''a'' ''a*'' = Inl (BadAlphabet r)
          \<and> compiler_main ''a'' ''a*'' = Inl (BadAlphabet r))"
proof -
  have h1: "CHR ''*'' \<in> set ''a*''" by simp
  have h2: "CHR ''*'' \<in> set ''|+*().''" by simp
  from C5_meta_symbol_rejected[OF h1 h2, of "''a''"] h1 h2 show ?thesis by blast
qed

text \<open>
  C5 as stated fails: the alphabet line \<open>:->{}\<close>, all of whose symbols are among the
  characters the claim lists, is accepted, and compilation succeeds.
\<close>

theorem C5_counterexample:
  "parse_alphabet_line '':->{}'' = Inr '':->{}''
   \<and> \<not> (\<exists>r. compile_dfa '':'' '':->{}'' = Inl (BadAlphabet r))"
  by (simp add: punct_alphabet punct_compile)

text \<open>
  C6, as corrected. When the alphabet line is valid and the first byte of the preprocessed
  pattern that is neither the epsilon sentinel, an alphabet symbol nor one of \<open>| + * ( )\<close>
  has a value of 128 or more, compilation fails with NonAsciiPatternByte. (A byte of value
  128 or more that is an alphabet symbol is accepted.)
\<close>

theorem C6_first_invalid_byte_non_ascii:
  assumes "parse_alphabet_line line_alpha = Inr alphabet"
    and "preprocess_regex line_regex = pre @ b # post"
    and "check_regex_symbols_valid alphabet pre = Inr ()"
    and "(of_char b :: nat) \<ge> 128" and "b \<notin> set alphabet"
  shows "compile_dfa line_regex line_alpha = Inl NonAsciiPatternByte
         \<and> compiler_main line_regex line_alpha = Inl NonAsciiPatternByte"
proof -
  have "check_regex_symbols_valid alphabet (preprocess_regex line_regex) = Inl NonAsciiPatternByte"
    using check_regex_first_bad_nonascii[OF assms(3,4,5)] assms(2) by simp
  then have "compile_dfa line_regex line_alpha = Inl NonAsciiPatternByte"
    using assms(1,2) by (simp add: compile_dfa_def)
  then show ?thesis using compiler_main_Inl by blast
qed

theorem C6_witness:
  "parse_alphabet_line ''a'' = Inr ''a''
   \<and> preprocess_regex [CHR ''a'', CHR 0xE9] = ''a'' @ CHR 0xE9 # []
   \<and> check_regex_symbols_valid ''a'' ''a'' = Inr ()
   \<and> (of_char (CHR 0xE9) :: nat) \<ge> 128 \<and> CHR 0xE9 \<notin> set ''a''
   \<and> compile_dfa [CHR ''a'', CHR 0xE9] ''a'' = Inl NonAsciiPatternByte
   \<and> compiler_main [CHR ''a'', CHR 0xE9] ''a'' = Inl NonAsciiPatternByte"
proof -
  have h1: "parse_alphabet_line ''a'' = Inr ''a''" by code_simp
  have h2: "preprocess_regex [CHR ''a'', CHR 0xE9] = ''a'' @ CHR 0xE9 # []" by code_simp
  have h3: "check_regex_symbols_valid ''a'' ''a'' = Inr ()" by code_simp
  have h4: "(of_char (CHR 0xE9) :: nat) \<ge> 128" by simp
  have h5: "CHR 0xE9 \<notin> set ''a''" by simp
  from C6_first_invalid_byte_non_ascii[OF h1 h2 h3 h4 h5] h1 h2 h3 h4 h5 show ?thesis by blast
qed

text \<open>
  C6 as stated fails: with the alphabet line consisting of the byte E9, the pattern
  consisting of the byte E9 (of value 233, left in place by preprocessing) compiles.
\<close>

theorem C6_counterexample:
  "(of_char (CHR 0xE9) :: nat) \<ge> 128 \<and> preprocess_regex [CHR 0xE9] = [CHR 0xE9]
   \<and> compile_dfa [CHR 0xE9] [CHR 0xE9] \<noteq> Inl NonAsciiPatternByte"
  by (simp add: latin1_compile isspace_def)

text \<open>
  C7. In the output of concatenation insertion every token of the input is followed by the
  marker \<open>.\<close> exactly when it has a successor, it is an alphabet symbol, the epsilon
  sentinel, \<open>)\<close> or \<open>*\<close>, and the successor is an alphabet symbol, the epsilon sentinel or
  \<open>(\<close>; nothing else is inserted.
\<close>

theorem C7_concat_marker_iff:
  "add_concat_ops alphabet s =
     concat (map (\<lambda>i. if i + 1 < length s
                         \<and> (s ! i \<in> set alphabet \<or> s ! i = EPS_TOK \<or> s ! i = CHR '')''
                              \<or> s ! i = CHR ''*'')
                         \<and> (s ! (i + 1) \<in> set alphabet \<or> s ! (i + 1) = EPS_TOK
                              \<or> s ! (i + 1) = CHR ''('')
                       then [s ! i, CHR ''.''] else [s ! i]) [0..<length s])"
  using add_concat_loop_eq[of 0 s alphabet "[]"]
  by (simp add: add_concat_ops_def need_concat_def is_atom_end_def is_atom_start_def
      is_alphabet_symbol_iff)

text \<open>
  C8. For well-formed DFAs over the same alphabet and a tests file in which every line is
  blank, a comment, or a test whose string is over the alphabet: if both DFAs give the same
  result on every test string, the comparator exits with code 0 and prints the PASS line with
  the number of tests, and all it writes to the error stream are label warnings.
\<close>

theorem C8_label_mismatch_is_warning:
  assumes "wf_DFA ref" "wf_DFA usr" "same_alphabet ref usr"
    and "\<forall>line \<in> set lines.
           (case parse_test_line line of
              Skip \<Rightarrow> True
            | Test label w \<Rightarrow> set w \<subseteq> set (dalphabet ref) \<and> run_dfa ref w = run_dfa usr w
            | _ \<Rightarrow> False)"
  shows "\<exists>err. checker_main ref usr lines
                 = (0, pass_message (length (filter (\<lambda>l. parse_test_line l \<noteq> Skip) lines)), err)
               \<and> list_all is_warning err"
proof -
  have a1: "take (dk ref) (dalphabet ref) = dalphabet ref" using assms(1) by (simp add: wf_DFA_def)
  have "take (dk usr) (dalphabet usr) = dalphabet usr" using assms(2) by (simp add: wf_DFA_def)
  with assms(3) a1 have a2: "take (dk usr) (dalphabet usr) = dalphabet ref"
    by (simp add: same_alphabet_def)
  have "list_all (test_ok ref usr) lines"
    using assms(4) by (simp add: list_all_iff test_ok_def)
  from tests_loop_pass[OF a1 a2 this, of "[]" 0 0] assms(3)
  show ?thesis by (simp add: checker_main_def count_tests_def)
qed

theorem C8_witness:
  "wf_DFA \<lparr>dk = 1, dalphabet = ''a'', dn = 1, dstart = 0, dacc = [True], dtrans = [0]\<rparr>
   \<and> wf_DFA \<lparr>dk = 1, dalphabet = ''a'', dn = 2, dstart = 0, dacc = [True, True], dtrans = [1, 1]\<rparr>
   \<and> same_alphabet
        \<lparr>dk = 1, dalphabet = ''a'', dn = 1, dstart = 0, dacc = [True], dtrans = [0]\<rparr>
        \<lparr>dk = 1, dalphabet = ''a'', dn = 2, dstart = 0, dacc = [True, True], dtrans = [1, 1]\<rparr>
   \<and> checker_main
        \<lparr>dk = 1, dalphabet = ''a'', dn = 1, dstart = 0, dacc = [True], dtrans = [0]\<rparr>
        \<lparr>dk = 1, dalphabet = ''a'', dn = 2, dstart = 0, dacc = [True, True], dtrans = [1, 1]\<rparr>
        [''1 a'', ''0 aa'', ''# note'', ''1 <eps>'']
      = (0, ''PASS: 3 tests matched (user DFA behavior == reference DFA behavior).\<newline>'',
         [LabelWarning 2 0 1])"
proof -
  let ?R = "\<lparr>dk = 1, dalphabet = ''a'', dn = 1, dstart = 0, dacc = [True], dtrans = [0]\<rparr>"
  let ?U = "\<lparr>dk = 1, dalphabet = ''a'', dn = 2, dstart = 0, dacc = [True, True], dtrans = [1, 1]\<rparr>"
  let ?L = "[''1 a'', ''0 aa'', ''# note'', ''1 <eps>'']"
  have h1: "wf_DFA ?R" by (simp add: wf_DFA_def)
  have h2: "wf_DFA ?U" by (simp add: wf_DFA_def)
  have h3: "same_alphabet ?R ?U" by (simp add: same_alphabet_def)
  have h4: "\<forall>line \<in> set ?L.
              (case parse_test_line line of
                 Skip \<Rightarrow> True
               | Test label w \<Rightarrow> set w \<subseteq> set (dalphabet ?R) \<and> run_dfa ?R w = run_dfa ?U w
               | _ \<Rightarrow> False)"
    by code_simp
  have e: "checker_main ?R ?U ?L
           = (0, ''PASS: 3 tests matched (user DFA behavior == reference DFA behavior).\<newline>'',
              [LabelWarning 2 0 1])"
    by code_simp
  from C8_label_mismatch_is_warning[OF h1 h2 h3 h4] obtain err where
    "checker_main ?R ?U ?L
       = (0, pass_message (length (filter (\<lambda>l. parse_test_line l \<noteq> Skip) ?L)), err)" by blast
  with h1 h2 h3 e show ?thesis by simp
qed

text \<open>
  C9 fails on the code. For the pattern \<open>a*a|bab\<close> over \<open>{a,b}\<close> the compiler emits 4 states
  with start state 1; only the states 0, 1 and 3 can be reached from the start state, and
  state 2 has no incoming transition at all.
\<close>

theorem C9_unreachable_state:
  "compile_dfa ''a*a|bab'' ''ab'' =
     Inr \<lparr>f_alphabet = ''ab'', f_states = 4, f_start = 1, f_accept = [0, 2],
       f_trans = [[0, 3], [0, 3], [3, 3], [3, 3]]\<rparr>
   \<and> reachable_states \<lparr>f_alphabet = ''ab'', f_states = 4, f_start = 1, f_accept = [0, 2],
       f_trans = [[0, 3], [0, 3], [3, 3], [3, 3]]\<rparr> = {0, 1, 3}"
proof -
  have "reachable_states \<lparr>f_alphabet = ''ab'', f_states = 4, f_start = 1, f_accept = [0, 2],
       f_trans = [[0, 3], [0, 3], [3, 3], [3, 3]]\<rparr> = {0, 1, 3}"
    by code_simp
  with unreach_compile show ?thesis by simp
qed

text \<open>
  C10. A raw byte 01 in the pattern is not rejected and is compiled as epsilon. Compilation of
  a pattern that contains it gives the same result as with \<open><eps>\<close> or with the bytes CE B5
  in its place. Every pass takes it as the epsilon sentinel: preprocessing keeps it, validation
  skips it, concatenation insertion and the shunting-yard treat it as an operand, and, for an
  alphabet the compiler accepts, the Thompson construction builds for it two fresh states
  joined by one \<open>\<epsilon>\<close>-edge. No pattern is rejected with an error that names the byte 01 as an
  invalid character, and no pattern at all fails with an unknown character or an invalid
  postfix token. The pattern that is the single byte 01 compiles for every accepted alphabet,
  to a DFA whose start state is accepting; over the alphabet \<open>a\<close> the file written is
  \<open>ALPHABET 1 a\<close>, \<open>STATES 2\<close>, \<open>START 0\<close>, \<open>ACCEPT 1 0\<close>, \<open>TRANS\<close>, the rows \<open>1\<close> and \<open>1\<close>,
  \<open>END\<close>: it accepts the empty string only.
\<close>

lemma raw_eps_render:
  "render_dfa \<lparr>f_alphabet = ''a'', f_states = 2, f_start = 0, f_accept = [0],
       f_trans = [[1], [1]]\<rparr> =
   ''ALPHABET 1 a\<newline>STATES 2\<newline>START 0\<newline>ACCEPT 1 0\<newline>TRANS\<newline>1\<newline>1\<newline>END\<newline>''"
  by code_simp

theorem C10_raw_eps_byte_is_epsilon:
  "compile_dfa (xs @ [CHR 0x01] @ ys) line_alpha = compile_dfa (xs @ ''<eps>'' @ ys) line_alpha
   \<and> compile_dfa (xs @ [CHR 0x01] @ ys) line_alpha
       = compile_dfa (xs @ [CHR 0xCE, CHR 0xB5] @ ys) line_alpha
   \<and> preprocess_regex (xs @ [CHR 0x01] @ ys)
       = preprocess_regex xs @ CHR 0x01 # preprocess_regex ys
   \<and> check_regex_symbols_valid alphabet (CHR 0x01 # rest) = check_regex_symbols_valid alphabet rest
   \<and> need_concat alphabet (CHR 0x01) (CHR 0x01)
   \<and> to_postfix_loop alphabet (CHR 0x01 # rest) ops out
       = to_postfix_loop alphabet rest ops (out @ [CHR 0x01])
   \<and> compile_dfa line_regex line_alpha \<noteq> Inl (BadPatternChar (CHR 0x01))
   \<and> compile_dfa line_regex line_alpha \<noteq> Inl (MalformedPostfix UnknownCharacter)
   \<and> compile_dfa line_regex line_alpha \<noteq> Inl (MalformedPostfix InvalidToken)
   \<and> (parse_alphabet_line line_alpha = Inr alphabet \<longrightarrow>
        postfix_loop alphabet (CHR 0x01 # post) nfa st =
          (case new_two nfa of
             Inl e \<Rightarrow> Inl e
           | Inr (nfa', s, t) \<Rightarrow>
               postfix_loop alphabet post (add_edge nfa' s t (CHR 0x00)) (Frag s t # st))
        \<and> (\<exists>d. compile_dfa [CHR 0x01] line_alpha = Inr d \<and> f_start d \<in> set (f_accept d)))
   \<and> compile_dfa [CHR 0x01] ''a'' =
       Inr \<lparr>f_alphabet = ''a'', f_states = 2, f_start = 0, f_accept = [0],
       f_trans = [[1], [1]]\<rparr>
   \<and> compiler_main [CHR 0x01] ''a'' =
       Inr ''ALPHABET 1 a\<newline>STATES 2\<newline>START 0\<newline>ACCEPT 1 0\<newline>TRANS\<newline>1\<newline>1\<newline>END\<newline>''"
proof -
  have p1: "preprocess_regex (xs @ [CHR 0x01] @ ys) = preprocess_regex (xs @ ''<eps>'' @ ys)"
    by (simp only: preprocess_raw_eps preprocess_ascii_eps)
  have p2: "preprocess_regex (xs @ [CHR 0x01] @ ys)
            = preprocess_regex (xs @ [CHR 0xCE, CHR 0xB5] @ ys)"
    by (simp only: preprocess_raw_eps preprocess_utf8_eps)
  have p3: "preprocess_regex (xs @ [CHR 0x01] @ ys)
            = preprocess_regex xs @ CHR 0x01 # preprocess_regex ys"
    using preprocess_raw_eps[of xs ys] by (simp add: EPS_TOK_def)
  have v: "check_regex_symbols_valid alphabet (CHR 0x01 # rest)
           = check_regex_symbols_valid alphabet rest"
    by (simp add: EPS_TOK_def)
  have nc: "need_concat alphabet (CHR 0x01) (CHR 0x01)"
    by (simp add: need_concat_def is_atom_end_def is_atom_start_def EPS_TOK_def)
  have tp: "to_postfix_loop alphabet (CHR 0x01 # rest) ops out
            = to_postfix_loop alphabet rest ops (out @ [CHR 0x01])"
    by (simp add: EPS_TOK_def)
  have e1: "compile_dfa line_regex line_alpha \<noteq> Inl (BadPatternChar (CHR 0x01))"
    using compile_dfa_errors[of line_regex line_alpha "BadPatternChar (CHR 0x01)"]
    by (auto simp: EPS_TOK_def)
  have e2: "compile_dfa line_regex line_alpha \<noteq> Inl (MalformedPostfix UnknownCharacter)"
    using compile_dfa_errors[of line_regex line_alpha "MalformedPostfix UnknownCharacter"]
    by auto
  have e3: "compile_dfa line_regex line_alpha \<noteq> Inl (MalformedPostfix InvalidToken)"
    using compile_dfa_errors[of line_regex line_alpha "MalformedPostfix InvalidToken"]
    by auto
  have t: "postfix_loop alphabet (CHR 0x01 # post) nfa st =
          (case new_two nfa of
             Inl e \<Rightarrow> Inl e
           | Inr (nfa', s, t) \<Rightarrow>
               postfix_loop alphabet post (add_edge nfa' s t (CHR 0x00)) (Frag s t # st))"
    if "parse_alphabet_line line_alpha = Inr alphabet"
  proof -
    from parse_alphabet_line_no_eps[OF that] have "\<not> is_alphabet_symbol alphabet (CHR 0x01)"
      by (simp add: is_alphabet_symbol_iff EPS_TOK_def)
    then show ?thesis by (simp add: EPS_TOK_def)
  qed
  have c: "compiler_main [CHR 0x01] ''a'' =
       Inr ''ALPHABET 1 a\<newline>STATES 2\<newline>START 0\<newline>ACCEPT 1 0\<newline>TRANS\<newline>1\<newline>1\<newline>END\<newline>''"
    by (simp only: compiler_main_def raw_eps_compile raw_eps_render map_sum.simps)
  show ?thesis
    using compile_dfa_cong[OF p1] compile_dfa_cong[OF p2] p3 v nc tp e1 e2 e3 t
      eps_only_compile[of line_alpha alphabet] raw_eps_compile c
    by blast
qed

theorem C10_witness:
  "parse_alphabet_line ''a'' = Inr ''a''
   \<and> postfix_loop ''a'' [CHR 0x01] [] [] = Inr ([[Edge 1 (CHR 0x00)], []], [Frag 0 1])
   \<and> compile_dfa [CHR 0x01] ''a'' = compile_dfa ''<eps>'' ''a''
   \<and> (\<exists>d. compile_dfa [CHR 0x01] ''a'' = Inr d \<and> f_start d \<in> set (f_accept d))
   \<and> compile_dfa ''<eps>'' ''a'' =
       Inr \<lparr>f_alphabet = ''a'', f_states = 2, f_start = 0, f_accept = [0],
       f_trans = [[1], [1]]\<rparr>"
proof -
  have h: "parse_alphabet_line ''a'' = Inr ''a''" by code_simp
  have e: "(case new_two [] of
              Inl e \<Rightarrow> Inl e
            | Inr (nfa', s, t) \<Rightarrow>
                postfix_loop ''a'' [] (add_edge nfa' s t (CHR 0x00)) (Frag s t # []))
           = Inr ([[Edge 1 (CHR 0x00)], []], [Frag 0 1])"
    by code_simp
  note T = C10_raw_eps_byte_is_epsilon[where xs = "[]" and ys = "[]" and line_alpha = "''a''"
      and alphabet = "''a''" and post = "[]" and nfa = "[]" and st = "[]" and rest = "[]"
      and ops = "[]" and out = "[]" and line_regex = "[]"]
  from T have "compile_dfa ([] @ [CHR 0x01] @ []) ''a'' = compile_dfa ([] @ ''<eps>'' @ []) ''a''"
    by blast
  then have a: "compile_dfa [CHR 0x01] ''a'' = compile_dfa ''<eps>'' ''a''" by simp
  from T h have b: "postfix_loop ''a'' [CHR 0x01] [] [] =
          (case new_two [] of
             Inl e \<Rightarrow> Inl e
           | Inr (nfa', s, t) \<Rightarrow>
               postfix_loop ''a'' [] (add_edge nfa' s t (CHR 0x00)) (Frag s t # []))"
    and x: "\<exists>d. compile_dfa [CHR 0x01] ''a'' = Inr d \<and> f_start d \<in> set (f_accept d)"
    by blast+
  from T have c: "compile_dfa [CHR 0x01] ''a'' =
       Inr \<lparr>f_alphabet = ''a'', f_states = 2, f_start = 0, f_accept = [0],
       f_trans = [[1], [1]]\<rparr>"
    by blast
  show ?thesis using h trans[OF b e] a x trans[OF a[symmetric] c] by blast
qed


end
